theory Spec2Isabelle
  imports Complex_Main "HOL-Library.Monad_Syntax"
begin

section \<open>JavaScript values\<close>

text \<open>
  A JavaScript number is an IEEE double: a finite double is a rational, and there are
  the three special values. The model takes every rational as a possible number, which
  is more than the doubles; \<open>===\<close> on numbers is equality, except that \<open>NaN\<close> is
  equal to nothing, itself included.
\<close>

datatype jsnum = NaN | PosInfinity | NegInfinity | Fin rat

definition strictEq :: "jsnum \<Rightarrow> jsnum \<Rightarrow> bool" where
  "strictEq a b = (a \<noteq> NaN \<and> b \<noteq> NaN \<and> a = b)"

text \<open>
  What \<open>JSON.parse\<close> can return. An object is the list of its properties in
  insertion order; \<open>undefined\<close> (a missing property) is \<open>None\<close> of
  \<open>json option\<close>.
\<close>

datatype json =
    JNull
  | JBool bool
  | JNumber jsnum
  | JString string
  | JArray "json list"
  | JObject "(string \<times> json) list"

section \<open>Strings\<close>

text \<open>
  A string is the list of its characters; a \<open>char\<close> stands for a UTF-16 code unit
  below 256. \<open>splitLines s\<close> is \<open>s.split('\n')\<close>, \<open>joinWith sep xs\<close> is
  \<open>xs.join(sep)\<close>, and \<open>showNat n\<close> is the decimal text a template literal
  prints for a non-negative integer.
\<close>

fun splitLines :: "string \<Rightarrow> string list" where
  "splitLines [] = [[]]"
| "splitLines (c # cs) =
     (if c = CHR 0x0A then [] # splitLines cs
      else (case splitLines cs of [] \<Rightarrow> [[c]] | l # ls \<Rightarrow> (c # l) # ls))"

fun joinWith :: "string \<Rightarrow> string list \<Rightarrow> string" where
  "joinWith sep [] = []"
| "joinWith sep [x] = x"
| "joinWith sep (x # y # ys) = x @ sep @ joinWith sep (y # ys)"

definition digitChar :: "nat \<Rightarrow> char" where
  "digitChar d = ''0123456789'' ! d"

fun showNat :: "nat \<Rightarrow> string" where
  "showNat n = (if n < 10 then [digitChar n] else showNat (n div 10) @ [digitChar (n mod 10)])"

declare showNat.simps [simp del]

text \<open>\<open>startsWith p s\<close> is \<open>s.startsWith(p)\<close> and \<open>includesStr p s\<close> is \<open>s.includes(p)\<close>.\<close>

definition startsWith :: "string \<Rightarrow> string \<Rightarrow> bool" where
  "startsWith p s = (take (length p) s = p)"

fun includesStr :: "string \<Rightarrow> string \<Rightarrow> bool" where
  "includesStr p [] = (p = [])"
| "includesStr p (c # cs) = (startsWith p (c # cs) \<or> includesStr p cs)"

section \<open>Patch chunker\<close>

subsection \<open>The hunk-header pattern\<close>

text \<open>
  The regular expression \<^verbatim>\<open>/(@@ -\d+,\d+ \+\d+,\d+ @@.*)/g\<close>, matched at the start
  of a string. Each \<^verbatim>\<open>\d+\<close> is greedy and is followed by a character that is not a
  digit, and the final \<^verbatim>\<open>.*\<close> is followed by nothing, so the longest run is the only
  one a backtracking matcher can succeed with: the matcher below takes it. The dot
  matches every character but a line terminator. \<open>matchHunkHeader s\<close> is what is left
  of \<open>s\<close> after the match.
\<close>

definition isDigit :: "char \<Rightarrow> bool" where
  "isDigit c = (c \<in> set ''0123456789'')"

definition isLineTerminator :: "char \<Rightarrow> bool" where
  "isLineTerminator c = (c = CHR 0x0A \<or> c = CHR 0x0D)"

fun expectLit :: "string \<Rightarrow> string \<Rightarrow> string option" where
  "expectLit [] s = Some s"
| "expectLit (p # ps) [] = None"
| "expectLit (p # ps) (c # cs) = (if p = c then expectLit ps cs else None)"

definition digits1 :: "string \<Rightarrow> string option" where
  "digits1 s = (if takeWhile isDigit s = [] then None else Some (dropWhile isDigit s))"

definition headerFixed :: "string \<Rightarrow> string option" where
  "headerFixed s =
     expectLit ''@@ -'' s \<bind> digits1 \<bind> expectLit '','' \<bind> digits1 \<bind>
     expectLit '' +'' \<bind> digits1 \<bind> expectLit '','' \<bind> digits1 \<bind>
     expectLit '' @@''"

definition matchHunkHeader :: "string \<Rightarrow> string option" where
  "matchHunkHeader s = map_option (dropWhile (\<lambda>c. \<not> isLineTerminator c)) (headerFixed s)"

lemma expectLit_length: "expectLit p s = Some r \<Longrightarrow> length r + length p = length s"
  by (induction p s rule: expectLit.induct) (auto split: if_splits)

lemma digits1_length: "digits1 s = Some r \<Longrightarrow> length r < length s"
  by (cases s) (auto simp: digits1_def length_dropWhile_le le_imp_less_Suc split: if_splits)

lemma headerFixed_length: "headerFixed s = Some r \<Longrightarrow> length r < length s"
  unfolding headerFixed_def
  by (auto simp: bind_eq_Some_conv dest!: expectLit_length digits1_length)

lemma matchHunkHeader_length: "matchHunkHeader s = Some r \<Longrightarrow> length r < length s"
  unfolding matchHunkHeader_def
  by (auto dest!: headerFixed_length intro: le_less_trans[OF length_dropWhile_le])

subsection \<open>Splitting at the pattern\<close>

text \<open>
  \<open>splitHunks [] patch\<close> is \<open>patch.split(hunkRegex)\<close>: the scan of
  \<open>String.prototype.split\<close> with a regular expression, which tries the pattern at
  each position in turn and, at a match, emits the text since the last match and then
  the text of the capture group (here the whole match). \<open>cur\<close> is the text since the
  last match. The pattern matches no empty string, so the scan's test for an empty match
  never holds.
\<close>

function splitHunks :: "string \<Rightarrow> string \<Rightarrow> string list" where
  "splitHunks cur [] = [cur]"
| "splitHunks cur (c # cs) =
     (case matchHunkHeader (c # cs) of
        None \<Rightarrow> splitHunks (cur @ [c]) cs
      | Some rest \<Rightarrow>
          cur # take (length (c # cs) - length rest) (c # cs) # splitHunks [] rest)"
  by pat_completeness auto
termination
  by (relation "measure (\<lambda>(cur, s). length s)") (auto dest: matchHunkHeader_length)

declare splitHunks.simps [simp del]

text \<open>
  The split returns \<open>2 * k + 1\<close> pieces when the pattern is found \<open>k\<close> times:
  \<open>boundariesFound\<close> is that \<open>k\<close>.
\<close>

definition boundariesFound :: "string \<Rightarrow> nat" where
  "boundariesFound patch = length (splitHunks [] patch) div 2"

subsection \<open>splitByLines and splitLargeFilePatch\<close>

definition maxLinesPerChunk :: nat where
  "maxLinesPerChunk = 5000"

definition fileHeader :: "string \<Rightarrow> string" where
  "fileHeader filename =
     ''diff --git a/'' @ filename @ '' b/'' @ filename @ ''\<newline>--- a/'' @ filename @
     ''\<newline>+++ b/'' @ filename @ ''\<newline>''"

definition chunkMarker :: "nat \<Rightarrow> nat \<Rightarrow> string" where
  "chunkMarker i n =
     ''@@ Chunk '' @ showNat (i div maxLinesPerChunk + 1) @ ''/'' @
     showNat (nat \<lceil>(of_nat n :: rat) / of_nat maxLinesPerChunk\<rceil>) @ '' @@\<newline>''"

function splitByLinesLoop :: "string \<Rightarrow> string list \<Rightarrow> nat \<Rightarrow> string list" where
  "splitByLinesLoop filename ls i =
     (if i < length ls then
        (fileHeader filename @ chunkMarker i (length ls) @
         joinWith ''\<newline>'' (take maxLinesPerChunk (drop i ls)))
        # splitByLinesLoop filename ls (i + maxLinesPerChunk)
      else [])"
  by pat_completeness auto
termination
  by (relation "measure (\<lambda>(f, ls, i). length ls - i)") (auto simp: maxLinesPerChunk_def)

declare splitByLinesLoop.simps [simp del]

definition splitByLines :: "string \<Rightarrow> string \<Rightarrow> string list" where
  "splitByLines filename patch = splitByLinesLoop filename (splitLines patch) 0"

text \<open>The loop that glues each piece at an even index to the piece after it.\<close>

fun properHunks :: "string list \<Rightarrow> string list" where
  "properHunks (a # b # hunks) = (a @ b) # properHunks hunks"
| "properHunks [a] = [a]"
| "properHunks [] = []"

text \<open>
  The packing loop over \<open>properHunks\<close>; its state is \<open>chunks\<close>, \<open>currentChunk\<close>
  and \<open>currentChunkLines\<close>.
\<close>

fun packLoop :: "string \<Rightarrow> string list \<Rightarrow> string list \<times> string \<times> nat \<Rightarrow> string list \<times> string \<times> nat" where
  "packLoop filename [] st = st"
| "packLoop filename (hunk # rest) (chunks, currentChunk, currentChunkLines) =
     (let hunkLines = length (splitLines hunk) in
      if currentChunkLines + hunkLines > maxLinesPerChunk \<and> currentChunk \<noteq> []
      then packLoop filename rest (chunks @ [fileHeader filename @ currentChunk], hunk, hunkLines)
      else packLoop filename rest (chunks, currentChunk @ hunk, currentChunkLines + hunkLines))"

definition packHunks :: "string \<Rightarrow> string list \<Rightarrow> string list" where
  "packHunks filename hs =
     (case packLoop filename hs ([], [], 0) of
        (chunks, currentChunk, currentChunkLines) \<Rightarrow>
          if currentChunk \<noteq> [] then chunks @ [fileHeader filename @ currentChunk] else chunks)"

definition splitLargeFilePatch :: "string \<Rightarrow> string \<Rightarrow> string list" where
  "splitLargeFilePatch filename patch =
     (let hunks = filter (\<lambda>h. h \<noteq> []) (splitHunks [] patch) in
      if length hunks \<le> 1 then splitByLines filename patch
      else packHunks filename (properHunks hunks))"

section \<open>The parsed diff (the parse-diff library's types)\<close>

text \<open>
  \<open>AddChange\<close> and \<open>DeleteChange\<close> carry one line number \<open>ln\<close> (the new line
  of an addition, the old line of a deletion), \<open>NormalChange\<close> carries \<open>ln1\<close> (old)
  and \<open>ln2\<close> (new). The paths \<open>from\<close> and \<open>to\<close> of a file are optional.
\<close>

datatype Change =
    AddChange int string
  | DeleteChange int string
  | NormalChange int int string

record Chunk =
  chunk_content :: string
  changes :: "Change list"

record ParsedFile =
  file_from :: "string option"
  file_to :: "string option"
  chunks :: "Chunk list"

record ReviewComment =
  body :: "json option"
  path :: string
  line :: jsnum

section \<open>Comment validator\<close>

text \<open>
  The body of the innermost loop of \<open>validateCommentLine\<close>: the chain of three
  tests on one change record.
\<close>

fun changeMatches :: "jsnum \<Rightarrow> Change \<Rightarrow> bool" where
  "changeMatches l (AddChange n t) = strictEq (Fin (of_int n)) l"
| "changeMatches l (DeleteChange n t) = strictEq (Fin (of_int n)) l"
| "changeMatches l (NormalChange n1 n2 t) =
     (strictEq (Fin (of_int n1)) l \<or> strictEq (Fin (of_int n2)) l)"

text \<open>The two nested loops, each left at the first match.\<close>

fun scanChanges :: "jsnum \<Rightarrow> Change list \<Rightarrow> bool" where
  "scanChanges l [] = False"
| "scanChanges l (c # cs) = (if changeMatches l c then True else scanChanges l cs)"

fun scanChunks :: "jsnum \<Rightarrow> Chunk list \<Rightarrow> bool" where
  "scanChunks l [] = False"
| "scanChunks l (ch # chs) =
     (if scanChanges l (changes ch) then True else scanChunks l chs)"

definition pathMatches :: "string \<Rightarrow> ParsedFile \<Rightarrow> bool" where
  "pathMatches p f = (file_to f = Some p \<or> file_from f = Some p)"

fun validateCommentLine :: "ReviewComment list \<Rightarrow> ParsedFile list \<Rightarrow> ReviewComment list" where
  "validateCommentLine [] parsedDiff = []"
| "validateCommentLine (comment # comments) parsedDiff =
     (case find (pathMatches (path comment)) parsedDiff of
        None \<Rightarrow> validateCommentLine comments parsedDiff
      | Some fileInDiff \<Rightarrow>
          if scanChunks (line comment) (chunks fileInDiff)
          then comment # validateCommentLine comments parsedDiff
          else validateCommentLine comments parsedDiff)"

section \<open>Checkpoint store and batch scheduler\<close>

text \<open>
  One entry of the listing of changed files: its path and, when there is one, its patch.
\<close>

record ChangedFile =
  filename :: string
  patch :: "string option"

record ReviewProgress =
  prNumber :: int
  repository :: string
  processedFiles :: "string list"
  allComments :: "ReviewComment list"
  currentBatch :: nat
  totalFiles :: nat
  timestamp :: string
  completed :: bool

definition createInitialProgress :: "int \<Rightarrow> string \<Rightarrow> nat \<Rightarrow> string \<Rightarrow> ReviewProgress" where
  "createInitialProgress prNum repo nfiles now =
     \<lparr>prNumber = prNum, repository = repo, processedFiles = [], allComments = [],
      currentBatch = 0, totalFiles = nfiles, timestamp = now, completed = False\<rparr>"

definition reconstructDiffFromProgress :: "ReviewProgress \<Rightarrow> string" where
  "reconstructDiffFromProgress progress =
     ''# Previously processed '' @ showNat (length (processedFiles progress)) @
     '' files\<newline># Files: '' @ joinWith '', '' (processedFiles progress) @ ''\<newline>''"

text \<open>
  What a run takes from outside: the \<open>LOCAL_TESTING\<close> switch, the answer of the
  file listing (\<open>None\<close> when the call throws), whether the body of the per-file
  \<open>try\<close> throws for a file (it can only do so before the file is tracked), and the
  clock readings at the creation and at the completion of a session.

  The progress file is a value of \<open>ReviewProgress option\<close>; reading, writing and
  deleting it are taken to succeed. A run returns its diff text, whether it called
  \<open>clearProgress\<close> (which it only does on entry), every value it passed to
  \<open>saveProgress\<close>, in order, and the files its batch loop went through.
\<close>

record Env =
  localTesting :: bool
  listFiles :: "ChangedFile list option"
  throwsOn :: "ChangedFile \<Rightarrow> bool"
  startedAt :: string
  finishedAt :: string

record RunResult =
  diff :: string
  cleared :: bool
  writes :: "ReviewProgress list"
  handled :: "ChangedFile list"

definition storeAfter :: "ReviewProgress option \<Rightarrow> RunResult \<Rightarrow> ReviewProgress option" where
  "storeAfter stored r =
     (if writes r \<noteq> [] then Some (last (writes r))
      else if cleared r then None else stored)"

text \<open>The string the per-file callback returns.\<close>

definition fileFragment :: "(ChangedFile \<Rightarrow> bool) \<Rightarrow> ChangedFile \<Rightarrow> string" where
  "fileFragment throws file =
     (if throws file
      then fileHeader (filename file) @ ''@@ Error retrieving diff @@''
      else case patch file of
        None \<Rightarrow> fileHeader (filename file) @ ''@@ File change detected, but diff not available @@''
      | Some p \<Rightarrow>
          if p = [] then
            fileHeader (filename file) @ ''@@ File change detected, but diff not available @@''
          else if length (splitLines p) > 15000 then
            joinWith ''\<newline>'' (splitLargeFilePatch (filename file) p)
          else ''diff --git a/'' @ filename file @ '' b/'' @ filename file @ ''\<newline>'' @ p)"

text \<open>
  Every path through the callback pushes the file's name on \<open>processedFiles\<close> and
  saves the progress once.
\<close>

definition trackFile :: "ChangedFile \<Rightarrow> ReviewProgress \<Rightarrow> ReviewProgress" where
  "trackFile file progress =
     progress\<lparr>processedFiles := processedFiles progress @ [filename file]\<rparr>"

text \<open>
  One batch: the callbacks have no \<open>await\<close> in them, so \<open>batch.map\<close> runs them
  to their end one after the other, in the order of the batch.
\<close>

fun processFiles :: "(ChangedFile \<Rightarrow> bool) \<Rightarrow> ChangedFile list \<Rightarrow> ReviewProgress \<times> ReviewProgress list \<Rightarrow>
    string list \<times> ReviewProgress \<times> ReviewProgress list" where
  "processFiles throws [] (progress, saved) = ([], progress, saved)"
| "processFiles throws (file # batch) (progress, saved) =
     (let progress' = trackFile file progress in
      case processFiles throws batch (progress', saved @ [progress']) of
        (results, st) \<Rightarrow> (fileFragment throws file # results, st))"

definition batchSize :: nat where
  "batchSize = 10"

function batchLoop :: "(ChangedFile \<Rightarrow> bool) \<Rightarrow> ChangedFile list \<Rightarrow> nat \<Rightarrow>
    string \<times> ReviewProgress \<times> ReviewProgress list \<Rightarrow> string \<times> ReviewProgress \<times> ReviewProgress list" where
  "batchLoop throws filesToProcess i (combinedDiff, progress, saved) =
     (if i < length filesToProcess then
        (let batch = take batchSize (drop i filesToProcess);
             batchNumber = currentBatch progress + i div batchSize + 1
         in case processFiles throws batch (progress, saved) of
              (batchResults, progress1, saved1) \<Rightarrow>
                (let progress2 = progress1\<lparr>currentBatch := batchNumber\<rparr>
                 in batchLoop throws filesToProcess (i + batchSize)
                      (combinedDiff @ joinWith ''\<newline>'' batchResults, progress2, saved1 @ [progress2])))
      else (combinedDiff, progress, saved))"
  by pat_completeness auto
termination
  by (relation "measure (\<lambda>(t, fs, i, st). length fs - i)") (auto simp: batchSize_def)

declare batchLoop.simps [simp del]

definition shouldResume :: "ReviewProgress option \<Rightarrow> string \<Rightarrow> int \<Rightarrow> bool" where
  "shouldResume stored repo pull_number =
     (case stored of
        None \<Rightarrow> False
      | Some progress \<Rightarrow>
          prNumber progress = pull_number \<and> repository progress = repo \<and> \<not> completed progress)"

definition workItems :: "Env \<Rightarrow> ChangedFile list \<Rightarrow> ChangedFile list" where
  "workItems env files = (if localTesting env then take 20 files else files)"

definition remainingFiles :: "ReviewProgress \<Rightarrow> ChangedFile list \<Rightarrow> ChangedFile list" where
  "remainingFiles progress files =
     filter (\<lambda>file. filename file \<notin> set (processedFiles progress)) files"

text \<open>
  The session a run works on once the files are listed: the stored one when resuming, a
  new one otherwise, with \<open>totalFiles\<close> overwritten under \<open>LOCAL_TESTING\<close>; and
  the files the run goes through.
\<close>

definition startProgress :: "Env \<Rightarrow> ReviewProgress option \<Rightarrow> string \<Rightarrow> int \<Rightarrow> ChangedFile list \<Rightarrow> ReviewProgress" where
  "startProgress env stored repo_id pull_number files =
     (let progress0 =
            (case stored of
               None \<Rightarrow> createInitialProgress pull_number repo_id (length files) (startedAt env)
             | Some progress \<Rightarrow>
                 if shouldResume stored repo_id pull_number then progress
                 else createInitialProgress pull_number repo_id (length files) (startedAt env))
      in if localTesting env then progress0\<lparr>totalFiles := length (workItems env files)\<rparr>
         else progress0)"

definition filesToProcess :: "Env \<Rightarrow> ReviewProgress option \<Rightarrow> string \<Rightarrow> int \<Rightarrow> ChangedFile list \<Rightarrow> ChangedFile list" where
  "filesToProcess env stored repo_id pull_number files =
     (if shouldResume stored repo_id pull_number
      then remainingFiles (startProgress env stored repo_id pull_number files) (workItems env files)
      else workItems env files)"

text \<open>
  The body of \<open>getIndividualFileDiffs\<close> after its first statement, which builds the
  session key \<open>repo_id\<close> from \<open>owner\<close> and \<open>repo\<close>.
\<close>

definition fileDiffsFor :: "Env \<Rightarrow> ReviewProgress option \<Rightarrow> string \<Rightarrow> int \<Rightarrow> RunResult" where
  "fileDiffsFor env stored repo_id pull_number =
     (let resume = shouldResume stored repo_id pull_number;
          clr = (\<not> resume \<and> stored \<noteq> None)
      in case listFiles env of
        None \<Rightarrow>
          \<lparr>diff = [], cleared = clr,
           writes = (case stored of None \<Rightarrow> [] | Some progress \<Rightarrow> [progress]), handled = []\<rparr>
      | Some files \<Rightarrow>
          if files = [] then \<lparr>diff = [], cleared = clr, writes = [], handled = []\<rparr>
          else
            (let progress1 = startProgress env stored repo_id pull_number files;
                 todo = filesToProcess env stored repo_id pull_number files
             in if todo = []
                then \<lparr>diff = reconstructDiffFromProgress progress1, cleared = clr, writes = [],
                      handled = []\<rparr>
                else
                  (case batchLoop (throwsOn env) todo 0
                          (if resume then reconstructDiffFromProgress progress1 else [], progress1, []) of
                     (combinedDiff, progress2, saved) \<Rightarrow>
                       if length (processedFiles progress2) \<ge> totalFiles progress2
                       then \<lparr>diff = combinedDiff, cleared = clr,
                             writes = saved @ [progress2\<lparr>completed := True, timestamp := finishedAt env\<rparr>],
                             handled = todo\<rparr>
                       else \<lparr>diff = combinedDiff, cleared = clr, writes = saved,
                             handled = todo\<rparr>)))"

definition getIndividualFileDiffs :: "Env \<Rightarrow> ReviewProgress option \<Rightarrow> string \<Rightarrow> string \<Rightarrow> int \<Rightarrow> RunResult" where
  "getIndividualFileDiffs env stored owner repo pull_number =
     fileDiffsFor env stored (owner @ ''/'' @ repo) pull_number"

section \<open>Submission batcher\<close>

text \<open>
  The review-submission call either accepts a batch or throws an error object, whose
  \<open>message\<close> may be missing. Its answers are given by the ordinal of the call and
  the batch. A run of \<open>postReviewComments\<close> is described by the value it returns, the
  count it logs in its last line (none under \<open>LOCAL_TESTING\<close>, which returns before
  the count exists), the submissions and waits in their order, and what it passed to
  \<open>saveProgress\<close>.
\<close>

datatype SubmitOutcome = Accepted | Rejected "string option"

datatype Event = Submitted "ReviewComment list" | Waited nat

record PostResult =
  returned :: bool
  successCount :: "nat option"
  events :: "Event list"
  saved :: "ReviewProgress list"

definition rateLimited :: "string option \<Rightarrow> bool" where
  "rateLimited message = (case message of None \<Rightarrow> False | Some m \<Rightarrow> includesStr ''rate limit'' m)"

definition postBatchSize :: nat where
  "postBatchSize = 5"

function postLoop :: "(nat \<Rightarrow> ReviewComment list \<Rightarrow> SubmitOutcome) \<Rightarrow> ReviewComment list \<Rightarrow> nat \<Rightarrow>
    nat \<times> Event list \<Rightarrow> nat \<times> Event list" where
  "postLoop createReview comments i (count, evs) =
     (if i < length comments then
        (let batchComments = take postBatchSize (drop i comments) in
         case createReview (i div postBatchSize) batchComments of
           Accepted \<Rightarrow>
             postLoop createReview comments (i + postBatchSize)
               (count + length batchComments,
                evs @ Submitted batchComments #
                  (if i + postBatchSize < length comments then [Waited 3000] else []))
         | Rejected message \<Rightarrow>
             postLoop createReview comments (i + postBatchSize)
               (count,
                evs @ Submitted batchComments #
                  (if rateLimited message then [Waited 10000] else [])))
      else (count, evs))"
  by pat_completeness auto
termination
  by (relation "measure (\<lambda>(cr, cs, i, st). length cs - i)") (auto simp: postBatchSize_def)

declare postLoop.simps [simp del]

definition postReviewComments :: "bool \<Rightarrow> (nat \<Rightarrow> ReviewComment list \<Rightarrow> SubmitOutcome) \<Rightarrow>
    ReviewProgress option \<Rightarrow> ReviewComment list \<Rightarrow> PostResult" where
  "postReviewComments local createReview stored comments =
     (let sv = (case stored of
                  None \<Rightarrow> []
                | Some progress \<Rightarrow> [progress\<lparr>allComments := allComments progress @ comments\<rparr>])
      in if local then \<lparr>returned = True, successCount = None, events = [], saved = sv\<rparr>
         else case postLoop createReview comments 0 (0, []) of
                (count, evs) \<Rightarrow>
                  \<lparr>returned = True, successCount = Some count, events = evs, saved = sv\<rparr>)"

text \<open>
  \<open>createReviewComment\<close> validates first; with no valid comment left it returns
  without calling \<open>postReviewComments\<close>.
\<close>

definition createReviewComment :: "bool \<Rightarrow> (nat \<Rightarrow> ReviewComment list \<Rightarrow> SubmitOutcome) \<Rightarrow>
    ReviewProgress option \<Rightarrow> ReviewComment list \<Rightarrow> ParsedFile list \<Rightarrow> PostResult option" where
  "createReviewComment local createReview stored comments parsedDiff =
     (let validComments = validateCommentLine comments parsedDiff in
      if validComments = [] then None
      else Some (postReviewComments local createReview stored validComments))"

section \<open>Analysis response parser\<close>

text \<open>
  \<open>trim\<close> removes white space and line terminators at both ends (the ones below
  256: tab, line feed, vertical tab, form feed, carriage return, space and no-break
  space); \<open>stripTicks s\<close> is \<^verbatim>\<open>s.replace(/^`+|`+$/g, '')\<close>, which removes the run of
  backticks at the start and the run of backticks at the end.
\<close>

definition isJsSpace :: "char \<Rightarrow> bool" where
  "isJsSpace c =
     (c \<in> set [CHR 0x09, CHR 0x0A, CHR 0x0B, CHR 0x0C, CHR 0x0D, CHR 0x20, CHR 0xA0])"

definition trim :: "string \<Rightarrow> string" where
  "trim s = rev (dropWhile isJsSpace (rev (dropWhile isJsSpace s)))"

definition isTick :: "char \<Rightarrow> bool" where
  "isTick c = (c = CHR 0x60)"

definition stripTicks :: "string \<Rightarrow> string" where
  "stripTicks s = rev (dropWhile isTick (rev (dropWhile isTick s)))"

text \<open>
  The body of both fence branches: split at line feeds, drop the first line, drop the
  last line if it is a closing fence, join and trim. After \<open>shift\<close> on a one-line
  reply the array is empty, and reading the \<open>trim\<close> of its last element throws: that
  is \<open>None\<close>.
\<close>

definition stripFence :: "string \<Rightarrow> string option" where
  "stripFence res =
     (case tl (splitLines res) of
        [] \<Rightarrow> None
      | l # ls \<Rightarrow>
          Some (trim (joinWith ''\<newline>''
            (if trim (last (l # ls)) = ''```'' then butlast (l # ls) else l # ls))))"

definition cleanResponse :: "string \<Rightarrow> string option" where
  "cleanResponse res =
     map_option (\<lambda>r. trim (stripTicks r))
       (if startsWith ''```json'' res then stripFence res
        else if startsWith ''```'' res then stripFence res
        else Some res)"

text \<open>
  Reading a property of a decoded value other than \<open>null\<close>, and JavaScript's
  truthiness. The properties of a decoded object have distinct names.
\<close>

fun getProp :: "string \<Rightarrow> json \<Rightarrow> json option" where
  "getProp k (JObject kvs) = map_of kvs k"
| "getProp k v = None"

fun truthy :: "json option \<Rightarrow> bool" where
  "truthy None = False"
| "truthy (Some JNull) = False"
| "truthy (Some (JBool b)) = b"
| "truthy (Some (JNumber n)) = (n \<noteq> NaN \<and> n \<noteq> Fin 0)"
| "truthy (Some (JString s)) = (s \<noteq> [])"
| "truthy (Some (JArray xs)) = True"
| "truthy (Some (JObject kvs)) = True"

text \<open>
  The inner \<open>try\<close>: \<open>parse\<close> is \<open>JSON.parse\<close>, \<open>None\<close> when it throws. Reading
  \<open>reviews\<close> of \<open>null\<close> throws as well, and both land in the \<open>catch\<close> that returns
  \<open>null\<close>.
\<close>

definition decodeReviews :: "(string \<Rightarrow> json option) \<Rightarrow> string \<Rightarrow> json" where
  "decodeReviews parse res =
     (case parse res of
        None \<Rightarrow> JNull
      | Some parsed \<Rightarrow>
          if parsed = JNull then JNull
          else if truthy (getProp ''reviews'' parsed) then the (getProp ''reviews'' parsed)
          else parsed)"

text \<open>
  What the completion call gives: it throws or has no first choice (\<open>Failed\<close>), or it
  has a first choice whose content may be missing. \<open>replyText c\<close> is
  \<^verbatim>\<open>content?.trim() || "{}"\<close>, and \<open>parseReply\<close> is the part of \<open>getAIResponse\<close>
  after the call; every exception in it ends in \<open>return null\<close>.
\<close>

datatype Reply = Failed | Content "string option"

definition replyText :: "string option \<Rightarrow> string" where
  "replyText c =
     (let t = (case c of None \<Rightarrow> [] | Some text \<Rightarrow> trim text)
      in if t = [] then ''{}'' else t)"

definition parseReply :: "(string \<Rightarrow> json option) \<Rightarrow> Reply \<Rightarrow> json" where
  "parseReply parse reply =
     (case reply of
        Failed \<Rightarrow> JNull
      | Content c \<Rightarrow>
          (case cleanResponse (replyText c) of
             None \<Rightarrow> JNull
           | Some cleaned \<Rightarrow> decodeReviews parse cleaned))"

section \<open>analyzeCode\<close>

record PRDetails =
  pr_owner :: string
  pr_repo :: string
  pr_number :: int
  title :: string
  description :: string

text \<open>
  The services a run of \<open>analyzeCode\<close> calls: the completion endpoint, as a function of
  the prompt, \<open>JSON.parse\<close> and \<open>Number\<close>.
\<close>

record Services =
  complete :: "string \<Rightarrow> Reply"
  parseJson :: "string \<Rightarrow> json option"
  toNumber :: "json option \<Rightarrow> jsnum"

definition getAIResponse :: "Services \<Rightarrow> string \<Rightarrow> json" where
  "getAIResponse svc prompt = parseReply (parseJson svc) (complete svc prompt)"

definition showInt :: "int \<Rightarrow> string" where
  "showInt i = (if i < 0 then CHR ''-'' # showNat (nat (- i)) else showNat (nat i))"

text \<open>
  The text \<^verbatim>\<open>${c.ln ? c.ln : c.ln2} ${c.content}\<close> of one change: a record without
  \<open>ln\<close>, or with \<open>ln\<close> zero, prints \<open>ln2\<close>, which is \<open>undefined\<close> on additions
  and deletions.
\<close>

fun changeLine :: "Change \<Rightarrow> string" where
  "changeLine (AddChange n t) = (if n \<noteq> 0 then showInt n else ''undefined'') @ '' '' @ t"
| "changeLine (DeleteChange n t) = (if n \<noteq> 0 then showInt n else ''undefined'') @ '' '' @ t"
| "changeLine (NormalChange n1 n2 t) = showInt n2 @ '' '' @ t"

definition createPrompt :: "ParsedFile \<Rightarrow> Chunk \<Rightarrow> PRDetails \<Rightarrow> string" where
  "createPrompt file chunk prDetails =
     ''Your task is to review pull requests. Instructions:\<newline>'' @
     ''- Provide the response in following JSON format:  {\"reviews\": [{\"lineNumber\":  <line_number>, \"reviewComment\": \"<review comment>\"}]}\<newline>'' @
     ''- Do not give positive comments or compliments.\<newline>'' @
     ''- Provide comments and suggestions ONLY if there is something to improve, otherwise \"reviews\" should be an empty array.\<newline>'' @
     ''- Write the comment in GitHub Markdown format.\<newline>'' @
     ''- Use the given description only for the overall context and only comment the code.\<newline>'' @
     ''- IMPORTANT: NEVER suggest adding comments to the code.\<newline>'' @
     ''\<newline>'' @
     ''Review the following code diff in the file \"'' @
     (case file_to file of None \<Rightarrow> ''undefined'' | Some p \<Rightarrow> p) @
     ''\" and take the pull request title and description into account when writing the response.\<newline>'' @
     ''  \<newline>'' @
     ''Pull request title: '' @ title prDetails @ ''\<newline>'' @
     ''Pull request description:\<newline>'' @
     ''\<newline>'' @
     ''---\<newline>'' @
     description prDetails @ ''\<newline>'' @
     ''---\<newline>'' @
     ''\<newline>'' @
     ''Git diff to review:\<newline>'' @
     ''\<newline>'' @
     ''```diff\<newline>'' @
     chunk_content chunk @ ''\<newline>'' @
     joinWith ''\<newline>'' (map changeLine (changes chunk)) @ ''\<newline>'' @
     ''```\<newline>''"

datatype error = TypeError

text \<open>
  \<open>createComment\<close>: \<open>flatMap\<close> exists on arrays only, so calling it on any other
  value throws. Its callback returns the empty array when \<open>file.to\<close> is missing or
  empty, and otherwise reads two properties of the item, which throws on \<open>null\<close>.
\<close>

fun commentsOf :: "(json option \<Rightarrow> jsnum) \<Rightarrow> ParsedFile \<Rightarrow> json list \<Rightarrow> error + ReviewComment list" where
  "commentsOf num file [] = Inr []"
| "commentsOf num file (aiResponse # rest) =
     (case file_to file of
        None \<Rightarrow> commentsOf num file rest
      | Some p \<Rightarrow>
          if p = [] then commentsOf num file rest
          else if aiResponse = JNull then Inl TypeError
          else (case commentsOf num file rest of
                  Inl e \<Rightarrow> Inl e
                | Inr cs \<Rightarrow>
                    Inr (\<lparr>body = getProp ''reviewComment'' aiResponse, path = p,
                          line = num (getProp ''lineNumber'' aiResponse)\<rparr> # cs)))"

definition createComment :: "(json option \<Rightarrow> jsnum) \<Rightarrow> ParsedFile \<Rightarrow> json \<Rightarrow> error + ReviewComment list" where
  "createComment num file aiResponses =
     (case aiResponses of JArray items \<Rightarrow> commentsOf num file items | _ \<Rightarrow> Inl TypeError)"

text \<open>
  The two loops of \<open>analyzeCode\<close>. The state is the list of prompts sent so far and the
  comments collected; an exception of \<open>createComment\<close> leaves the function.
\<close>

fun analyzeChunks :: "Services \<Rightarrow> PRDetails \<Rightarrow> ParsedFile \<Rightarrow> Chunk list \<Rightarrow>
    string list \<times> ReviewComment list \<Rightarrow> string list \<times> (error + ReviewComment list)" where
  "analyzeChunks svc prDetails file [] (calls, comments) = (calls, Inr comments)"
| "analyzeChunks svc prDetails file (chunk # rest) (calls, comments) =
     (let prompt = createPrompt file chunk prDetails;
          aiResponse = getAIResponse svc prompt
      in if truthy (Some aiResponse) then
           (case createComment (toNumber svc) file aiResponse of
              Inl e \<Rightarrow> (calls @ [prompt], Inl e)
            | Inr newComments \<Rightarrow>
                analyzeChunks svc prDetails file rest (calls @ [prompt], comments @ newComments))
         else analyzeChunks svc prDetails file rest (calls @ [prompt], comments))"

fun analyzeFiles :: "Services \<Rightarrow> PRDetails \<Rightarrow> ParsedFile list \<Rightarrow>
    string list \<times> ReviewComment list \<Rightarrow> string list \<times> (error + ReviewComment list)" where
  "analyzeFiles svc prDetails [] (calls, comments) = (calls, Inr comments)"
| "analyzeFiles svc prDetails (file # files) (calls, comments) =
     (if file_to file = Some ''/dev/null'' then analyzeFiles svc prDetails files (calls, comments)
      else case analyzeChunks svc prDetails file (chunks file) (calls, comments) of
             (calls', Inl e) \<Rightarrow> (calls', Inl e)
           | (calls', Inr comments') \<Rightarrow> analyzeFiles svc prDetails files (calls', comments'))"

definition analyzeCode :: "Services \<Rightarrow> ParsedFile list \<Rightarrow> PRDetails \<Rightarrow> string list \<times> (error + ReviewComment list)" where
  "analyzeCode svc parsedDiff prDetails = analyzeFiles svc prDetails parsedDiff ([], [])"

section \<open>Properties of the comment validator\<close>

lemma scanChanges_iff: "scanChanges l cs = (\<exists>c \<in> set cs. changeMatches l c)"
  by (induction cs) auto

lemma scanChunks_iff:
  "scanChunks l chs = (\<exists>ch \<in> set chs. \<exists>c \<in> set (changes ch). changeMatches l c)"
  by (induction chs) (auto simp: scanChanges_iff)

lemma changeMatches_cases:
  "changeMatches l c \<Longrightarrow>
     (\<exists>n t. c = AddChange n t \<and> l = Fin (of_int n)) \<or>
     (\<exists>n t. c = DeleteChange n t \<and> l = Fin (of_int n)) \<or>
     (\<exists>n1 n2 t. c = NormalChange n1 n2 t \<and> (l = Fin (of_int n1) \<or> l = Fin (of_int n2)))"
  by (cases c) (auto simp: strictEq_def)

lemma find_pathMatches:
  "find (pathMatches p) fs = Some f \<Longrightarrow> f \<in> set fs \<and> pathMatches p f"
  by (induction fs) (auto split: if_splits)

lemma validated_has_record:
  assumes "c \<in> set (validateCommentLine comments parsedDiff)"
  shows "c \<in> set comments \<and>
    (\<exists>f \<in> set parsedDiff. (file_to f = Some (path c) \<or> file_from f = Some (path c)) \<and>
      (\<exists>ch \<in> set (chunks f). \<exists>x \<in> set (changes ch).
         (\<exists>n t. x = AddChange n t \<and> line c = Fin (of_int n)) \<or>
         (\<exists>n t. x = DeleteChange n t \<and> line c = Fin (of_int n)) \<or>
         (\<exists>n1 n2 t. x = NormalChange n1 n2 t \<and>
            (line c = Fin (of_int n1) \<or> line c = Fin (of_int n2)))))"
  using assms
proof (induction comments)
  case Nil
  then show ?case by simp
next
  case (Cons a comments)
  show ?case
  proof (cases "c \<in> set (validateCommentLine comments parsedDiff)")
    case True
    with Cons.IH show ?thesis by auto
  next
    case False
    with Cons.prems obtain f where
      f: "find (pathMatches (path a)) parsedDiff = Some f" and
      s: "scanChunks (line a) (chunks f)" and ca: "c = a"
      by (auto split: option.splits if_splits)
    from f have fin: "f \<in> set parsedDiff" and pm: "pathMatches (path a) f"
      using find_pathMatches by blast+
    from s obtain ch x where
      ch: "ch \<in> set (chunks f)" and x: "x \<in> set (changes ch)" and m: "changeMatches (line a) x"
      by (auto simp: scanChunks_iff)
    from changeMatches_cases[OF m] fin pm ch x ca show ?thesis
      unfolding pathMatches_def by (intro conjI bexI[of _ f] bexI[of _ ch] bexI[of _ x]) auto
  qed
qed

section \<open>Properties of the line-window fallback\<close>

lemma nat_ceil:
  fixes m n :: nat
  assumes "0 < m"
  shows "(n + m - 1) div m = n div m + (if n mod m = 0 then 0 else 1)"
proof -
  define q r where "q = n div m" and "r = n mod m"
  have n: "n = r + q * m" and r: "r < m"
    using assms by (simp_all add: q_def r_def)
  have "n + m - 1 = (r + m - 1) + q * m" using assms n by simp
  then have d: "(n + m - 1) div m = q + (r + m - 1) div m"
    using assms by (simp only: div_mult_self1)
  show ?thesis
  proof (cases "r = 0")
    case True
    then have "(r + m - 1) div m = 0" using assms by simp
    with d True show ?thesis by (simp add: q_def r_def)
  next
    case False
    have "(r + m - 1) div m = 1"
      by (rule div_nat_eqI) (use False r in simp_all)
    with d False show ?thesis by (simp add: q_def r_def)
  qed
qed

lemma int_ceil:
  fixes m n :: nat
  assumes "0 < m"
  shows "nat (- (- int n div int m)) = (n + m - 1) div m"
proof -
  have "- (- int n div int m) = int (n div m + (if n mod m = 0 then 0 else 1))"
    using assms by (simp add: zdiv_zminus1_eq_if flip: of_nat_mod of_nat_div)
  then show ?thesis using nat_ceil[OF assms, of n] by simp
qed

lemma ceil_div_nat:
  "nat \<lceil>(of_nat n :: rat) / of_nat maxLinesPerChunk\<rceil> = (n + maxLinesPerChunk - 1) div maxLinesPerChunk"
proof -
  have "\<lceil>(of_int (int n) :: rat) / of_int (int maxLinesPerChunk)\<rceil> = - (- int n div int maxLinesPerChunk)"
    by (rule ceiling_divide_eq_div)
  moreover have "0 < maxLinesPerChunk" by (simp add: maxLinesPerChunk_def)
  ultimately show ?thesis
    using int_ceil[of maxLinesPerChunk n] by simp
qed


lemma ceil_step:
  fixes m d :: nat
  assumes "0 < m" "0 < d"
  shows "(d + m - 1) div m = Suc ((d - m + m - 1) div m)"
proof (cases "m \<le> d")
  case True
  then have "d + m - 1 = (d - m + m - 1) + m" using assms by simp
  then have "(d + m - 1) div m = (d - m + m - 1) div m + 1"
    using assms(1) by (simp only: div_add_self2)
  then show ?thesis by simp
next
  case False
  then have "d - m + m - 1 < m" using assms by simp
  then have b: "(d - m + m - 1) div m = 0" by simp
  have "(d + m - 1) div m = 1"
    by (rule div_nat_eqI) (use False assms in simp_all)
  with b show ?thesis by simp
qed

lemma maxLinesPerChunk_pos: "0 < maxLinesPerChunk"
  by (simp add: maxLinesPerChunk_def)

lemma length_splitByLinesLoop:
  "length (splitByLinesLoop f ls i) = (length ls - i + maxLinesPerChunk - 1) div maxLinesPerChunk"
proof (induction f ls i rule: splitByLinesLoop.induct)
  case (1 f ls i)
  show ?case
  proof (cases "i < length ls")
    case True
    then have "0 < length ls - i" by simp
    from ceil_step[OF maxLinesPerChunk_pos this] "1.IH"[OF True] True show ?thesis
      by (subst splitByLinesLoop.simps) simp
  next
    case False
    then have "length ls - i = 0" by simp
    then have "(length ls - i + maxLinesPerChunk - 1) div maxLinesPerChunk = 0"
      using maxLinesPerChunk_pos by simp
    with False show ?thesis
      by (subst splitByLinesLoop.simps) simp
  qed
qed

lemma nth_splitByLinesLoop:
  "k < length (splitByLinesLoop f ls i) \<Longrightarrow>
   splitByLinesLoop f ls i ! k =
     fileHeader f @ chunkMarker (i + k * maxLinesPerChunk) (length ls) @
     joinWith ''\<newline>'' (take maxLinesPerChunk (drop (i + k * maxLinesPerChunk) ls))"
proof (induction f ls i arbitrary: k rule: splitByLinesLoop.induct)
  case (1 f ls i)
  show ?case
  proof (cases "i < length ls")
    case True
    show ?thesis
    proof (cases k)
      case 0
      with True show ?thesis by (subst splitByLinesLoop.simps) simp
    next
      case (Suc j)
      with True "1.prems" have "j < length (splitByLinesLoop f ls (i + maxLinesPerChunk))"
        by (subst (asm) splitByLinesLoop.simps) simp
      note ih = "1.IH"[OF True this]
      have idx: "i + maxLinesPerChunk + j * maxLinesPerChunk = i + k * maxLinesPerChunk"
        using Suc by simp
      have "splitByLinesLoop f ls i ! k = splitByLinesLoop f ls (i + maxLinesPerChunk) ! j"
        using True Suc by (subst splitByLinesLoop.simps) simp
      with ih show ?thesis by (simp only: idx)
    qed
  next
    case False
    with "1.prems" show ?thesis by (subst (asm) splitByLinesLoop.simps) simp
  qed
qed

lemma length_splitByLines:
  "length (splitByLines f ptext) =
     nat \<lceil>(of_nat (length (splitLines ptext)) :: rat) / of_nat maxLinesPerChunk\<rceil>"
  by (simp add: splitByLines_def length_splitByLinesLoop ceil_div_nat)

lemma chunkMarker_index:
  "chunkMarker (k * maxLinesPerChunk) n =
     ''@@ Chunk '' @ showNat (k + 1) @ ''/'' @
     showNat (nat \<lceil>(of_nat n :: rat) / of_nat maxLinesPerChunk\<rceil>) @ '' @@\<newline>''"
  using maxLinesPerChunk_pos by (simp add: chunkMarker_def)




lemma length_splitHunks_odd: "odd (length (splitHunks cur s))"
  by (induction cur s rule: splitHunks.induct) (auto simp: splitHunks.simps split: option.splits)

lemma matchHunkHeader_Nil: "matchHunkHeader [] = None"
  by (simp add: matchHunkHeader_def headerFixed_def)

lemma fallback_taken:
  assumes "boundariesFound ptext = 0 \<or> matchHunkHeader ptext = Some []"
  shows "length (filter (\<lambda>h. h \<noteq> []) (splitHunks [] ptext)) \<le> 1"
  using assms
proof
  assume "boundariesFound ptext = 0"
  then have "length (splitHunks [] ptext) \<le> 1"
    by (simp add: boundariesFound_def div_eq_0_iff) 
  then show ?thesis
    using length_filter_le[of "\<lambda>h. h \<noteq> []" "splitHunks [] ptext"] by linarith
next
  assume m: "matchHunkHeader ptext = Some []"
  then obtain c cs where p: "ptext = c # cs"
    by (cases ptext) (simp_all add: matchHunkHeader_Nil)
  with m have "splitHunks [] ptext = [[], ptext, []]" by (simp add: splitHunks.simps)
  then show ?thesis by simp
qed

text \<open>
  C3 (amended). When the split finds no hunk boundary, or the patch is one hunk header
  and nothing else, \<open>splitLargeFilePatch\<close> returns what \<open>splitByLines\<close>
  returns: as many chunks as the ceiling of the line count over \<open>maxLinesPerChunk\<close>,
  the chunk at index \<open>k\<close> being the synthetic file header, the marker
  \<open>@@ Chunk k+1/total @@\<close> and the lines of the window that starts at line
  \<open>k * maxLinesPerChunk\<close>.
\<close>

theorem splitLargeFilePatch_fallback:
  assumes "boundariesFound ptext = 0 \<or> matchHunkHeader ptext = Some []"
  shows "splitLargeFilePatch fname ptext = splitByLines fname ptext \<and>
    length (splitByLines fname ptext) =
      nat \<lceil>(of_nat (length (splitLines ptext)) :: rat) / of_nat maxLinesPerChunk\<rceil> \<and>
    (\<forall>k < length (splitByLines fname ptext).
       splitByLines fname ptext ! k =
         fileHeader fname @
         ''@@ Chunk '' @ showNat (k + 1) @ ''/'' @ showNat (length (splitByLines fname ptext)) @
         '' @@\<newline>'' @
         joinWith ''\<newline>'' (take maxLinesPerChunk (drop (k * maxLinesPerChunk) (splitLines ptext))))"
proof (intro conjI allI impI)
  show "splitLargeFilePatch fname ptext = splitByLines fname ptext"
    using fallback_taken[OF assms] by (simp add: splitLargeFilePatch_def)
  show "length (splitByLines fname ptext) =
      nat \<lceil>(of_nat (length (splitLines ptext)) :: rat) / of_nat maxLinesPerChunk\<rceil>"
    by (rule length_splitByLines)
  fix k assume "k < length (splitByLines fname ptext)"
  then have k: "k < length (splitByLinesLoop fname (splitLines ptext) 0)"
    by (simp only: splitByLines_def)
  have "splitByLines fname ptext ! k =
      fileHeader fname @ chunkMarker (k * maxLinesPerChunk) (length (splitLines ptext)) @
      joinWith ''\<newline>'' (take maxLinesPerChunk (drop (k * maxLinesPerChunk) (splitLines ptext)))"
    using nth_splitByLinesLoop[OF k] by (simp add: splitByLines_def)
  then show "splitByLines fname ptext ! k =
         fileHeader fname @
         ''@@ Chunk '' @ showNat (k + 1) @ ''/'' @ showNat (length (splitByLines fname ptext)) @
         '' @@\<newline>'' @
         joinWith ''\<newline>'' (take maxLinesPerChunk (drop (k * maxLinesPerChunk) (splitLines ptext)))"
    by (simp only: chunkMarker_index length_splitByLines append_assoc)
qed

lemmas header_eval = matchHunkHeader_def headerFixed_def digits1_def isDigit_def isLineTerminator_def

lemma splitHunks_plain: "splitHunks [] ''+a\<newline>+b'' = [''+a\<newline>+b'']"
  by (simp add: splitHunks.simps header_eval)

lemma splitHunks_one: "splitHunks [] ''@@ -1,1 +1,1 @@\<newline>+a'' = [[], ''@@ -1,1 +1,1 @@'', ''\<newline>+a'']"
  by (simp add: splitHunks.simps header_eval)

lemma splitLines_nonempty: "splitLines s \<noteq> []"
  by (cases s) (auto split: list.splits)

lemma splitByLines_nonempty: "0 < length (splitByLines f p)"
  using splitLines_nonempty[of p]
  by (simp add: splitByLines_def, subst splitByLinesLoop.simps) simp

lemma showNat_digit: "n < 10 \<Longrightarrow> showNat n = [digitChar n]"
  by (subst showNat.simps) simp

theorem splitLargeFilePatch_fallback_witness:
  "boundariesFound ''+a\<newline>+b'' = 0 \<and>
   splitLargeFilePatch ''f.ts'' ''+a\<newline>+b'' = splitByLines ''f.ts'' ''+a\<newline>+b'' \<and>
   length (splitByLines ''f.ts'' ''+a\<newline>+b'') = 1 \<and>
   splitByLines ''f.ts'' ''+a\<newline>+b'' ! 0 =
     ''diff --git a/f.ts b/f.ts\<newline>--- a/f.ts\<newline>+++ b/f.ts\<newline>@@ Chunk 1/1 @@\<newline>+a\<newline>+b''"
proof -
  let ?p = "''+a\<newline>+b''"
  have b0: "boundariesFound ?p = 0"
    unfolding boundariesFound_def splitHunks_plain by simp
  then have h: "boundariesFound ?p = 0 \<or> matchHunkHeader ?p = Some []" by simp
  have l: "splitLines ?p = [''+a'', ''+b'']" by simp
  have c: "nat \<lceil>(of_nat (length [''+a'', ''+b'']) :: rat) / of_nat maxLinesPerChunk\<rceil> = 1"
    by (simp only: ceil_div_nat) (simp add: maxLinesPerChunk_def)
  note t = splitLargeFilePatch_fallback[OF h, of "''f.ts''"]
  from t have A: "splitLargeFilePatch ''f.ts'' ?p = splitByLines ''f.ts'' ?p" by blast
  from t have "length (splitByLines ''f.ts'' ?p) =
      nat \<lceil>(of_nat (length (splitLines ?p)) :: rat) / of_nat maxLinesPerChunk\<rceil>" by blast
  then have B: "length (splitByLines ''f.ts'' ?p) = 1" by (simp only: l c)
  then have "0 < length (splitByLines ''f.ts'' ?p)" by simp
  with t have "splitByLines ''f.ts'' ?p ! 0 =
         fileHeader ''f.ts'' @
         ''@@ Chunk '' @ showNat (0 + 1) @ ''/'' @ showNat (length (splitByLines ''f.ts'' ?p)) @
         '' @@\<newline>'' @
         joinWith ''\<newline>'' (take maxLinesPerChunk (drop (0 * maxLinesPerChunk) (splitLines ?p)))"
    by blast
  then have C: "splitByLines ''f.ts'' ?p ! 0 =
     ''diff --git a/f.ts b/f.ts\<newline>--- a/f.ts\<newline>+++ b/f.ts\<newline>@@ Chunk 1/1 @@\<newline>+a\<newline>+b''"
    by (simp only: B l) (simp add: showNat_digit digitChar_def fileHeader_def maxLinesPerChunk_def)
  from b0 A B C show ?thesis by blast
qed

text \<open>
  C3 as stated fails when one boundary is found and the header is followed by a body:
  the split yields the header and the body, two pieces, and the patch is packed as one
  hunk with no chunk marker.
\<close>

theorem splitLargeFilePatch_one_boundary_counterexample:
  "boundariesFound ''@@ -1,1 +1,1 @@\<newline>+a'' = 1 \<and>
   splitLargeFilePatch ''f.ts'' ''@@ -1,1 +1,1 @@\<newline>+a'' =
     [''diff --git a/f.ts b/f.ts\<newline>--- a/f.ts\<newline>+++ b/f.ts\<newline>@@ -1,1 +1,1 @@\<newline>+a''] \<and>
   splitLargeFilePatch ''f.ts'' ''@@ -1,1 +1,1 @@\<newline>+a'' \<noteq>
     splitByLines ''f.ts'' ''@@ -1,1 +1,1 @@\<newline>+a''"
proof -
  let ?p = "''@@ -1,1 +1,1 @@\<newline>+a''"
  have a: "boundariesFound ?p = 1"
    unfolding boundariesFound_def splitHunks_one by simp
  have "splitLargeFilePatch ''f.ts'' ?p =
      packHunks ''f.ts'' (properHunks (filter (\<lambda>h. h \<noteq> []) [[], ''@@ -1,1 +1,1 @@'', ''\<newline>+a'']))"
    unfolding splitLargeFilePatch_def splitHunks_one by simp
  then have b: "splitLargeFilePatch ''f.ts'' ?p =
     [''diff --git a/f.ts b/f.ts\<newline>--- a/f.ts\<newline>+++ b/f.ts\<newline>@@ -1,1 +1,1 @@\<newline>+a'']"
    by (simp add: packHunks_def fileHeader_def maxLinesPerChunk_def)
  have "splitByLines ''f.ts'' ?p ! 0 = fileHeader ''f.ts'' @ chunkMarker 0 (length (splitLines ?p)) @
      joinWith ''\<newline>'' (take maxLinesPerChunk (drop 0 (splitLines ?p)))"
    using nth_splitByLinesLoop[of 0 "''f.ts''" "splitLines ?p" 0] splitByLines_nonempty[of "''f.ts''" ?p]
    by (simp only: splitByLines_def) simp
  then have n1: "splitByLines ''f.ts'' ?p ! 0 \<noteq> fileHeader ''f.ts'' @ ?p"
    by (simp add: chunkMarker_def)
  have n2: "splitLargeFilePatch ''f.ts'' ?p ! 0 = fileHeader ''f.ts'' @ ?p"
    by (simp only: b) (simp add: fileHeader_def)
  have c: "splitLargeFilePatch ''f.ts'' ?p \<noteq> splitByLines ''f.ts'' ?p"
  proof
    assume "splitLargeFilePatch ''f.ts'' ?p = splitByLines ''f.ts'' ?p"
    then have "splitByLines ''f.ts'' ?p ! 0 = splitLargeFilePatch ''f.ts'' ?p ! 0"
      by (rule arg_cong[where f = "\<lambda>x. x ! 0", symmetric])
    with n1 n2 show False by simp
  qed
  from a b c show ?thesis by (intro conjI)
qed

section \<open>Properties of hunk packing\<close>

definition lineCount :: "string \<Rightarrow> nat" where
  "lineCount s = length (splitLines s)"




















definition digitsRun :: "string \<Rightarrow> bool" where
  "digitsRun d = (d \<noteq> [] \<and> (\<forall>c \<in> set d. isDigit c))"

definition headerText :: "string \<Rightarrow> string \<Rightarrow> string \<Rightarrow> string \<Rightarrow> string" where
  "headerText d1 d2 d3 d4 =
     ''@@ -'' @ d1 @ '','' @ d2 @ '' +'' @ d3 @ '','' @ d4 @ '' @@''"

lemma expectLit_iff: "(expectLit p s = Some r) = (s = p @ r)"
  by (induction p s rule: expectLit.induct) auto

lemma digits1_run:
  assumes "digitsRun d" "\<not> isDigit c"
  shows "digits1 (d @ c # r) = Some (c # r)"
proof -
  from assms have "takeWhile isDigit (d @ c # r) = d"
    by (simp add: digitsRun_def takeWhile_append2)
  moreover from assms have "dropWhile isDigit (d @ c # r) = c # r"
    by (simp add: digitsRun_def dropWhile_append2)
  ultimately show ?thesis using assms by (simp add: digits1_def digitsRun_def)
qed

lemma digits1_Some:
  assumes "digits1 s = Some r"
  shows "\<exists>d. digitsRun d \<and> s = d @ r"
proof -
  from assms have "takeWhile isDigit s \<noteq> []" and r: "r = dropWhile isDigit s"
    by (auto simp: digits1_def split: if_splits)
  then have "digitsRun (takeWhile isDigit s)"
    by (auto simp: digitsRun_def dest: set_takeWhileD)
  moreover have "s = takeWhile isDigit s @ r" using r by simp
  ultimately show ?thesis by blast
qed

lemma headerFixed_headerText:
  assumes "digitsRun d1" "digitsRun d2" "digitsRun d3" "digitsRun d4"
  shows "headerFixed (headerText d1 d2 d3 d4 @ r) = Some r"
proof -
  have nd: "\<not> isDigit CHR '',''" "\<not> isDigit CHR '' ''" by (simp_all add: isDigit_def)
  show ?thesis
    unfolding headerFixed_def headerText_def
    by (simp add: digits1_run[OF assms(1) nd(1)] digits1_run[OF assms(2) nd(2)]
        digits1_run[OF assms(3) nd(1)] digits1_run[OF assms(4) nd(2)])
qed

lemma headerFixed_Some:
  assumes "headerFixed s = Some r"
  shows "\<exists>d1 d2 d3 d4. digitsRun d1 \<and> digitsRun d2 \<and> digitsRun d3 \<and> digitsRun d4 \<and>
           s = headerText d1 d2 d3 d4 @ r"
proof -
  from assms obtain s1 s2 s3 s4 s5 s6 s7 s8 where
    e1: "expectLit ''@@ -'' s = Some s1" and g1: "digits1 s1 = Some s2" and
    e2: "expectLit '','' s2 = Some s3" and g2: "digits1 s3 = Some s4" and
    e3: "expectLit '' +'' s4 = Some s5" and g3: "digits1 s5 = Some s6" and
    e4: "expectLit '','' s6 = Some s7" and g4: "digits1 s7 = Some s8" and
    e5: "expectLit '' @@'' s8 = Some r"
    unfolding headerFixed_def by (auto simp: bind_eq_Some_conv)
  from g1 obtain d1 where d1: "digitsRun d1" "s1 = d1 @ s2" using digits1_Some by blast
  from g2 obtain d2 where d2: "digitsRun d2" "s3 = d2 @ s4" using digits1_Some by blast
  from g3 obtain d3 where d3: "digitsRun d3" "s5 = d3 @ s6" using digits1_Some by blast
  from g4 obtain d4 where d4: "digitsRun d4" "s7 = d4 @ s8" using digits1_Some by blast
  from e1 e2 e3 e4 e5 d1(2) d2(2) d3(2) d4(2)
  have "s = headerText d1 d2 d3 d4 @ r"
    by (simp add: expectLit_iff headerText_def)
  with d1(1) d2(1) d3(1) d4(1) show ?thesis by blast
qed

lemma headerFixed_iff:
  "(headerFixed s = Some r) =
   (\<exists>d1 d2 d3 d4. digitsRun d1 \<and> digitsRun d2 \<and> digitsRun d3 \<and> digitsRun d4 \<and>
      s = headerText d1 d2 d3 d4 @ r)"
proof
  assume "headerFixed s = Some r"
  then show "\<exists>d1 d2 d3 d4. digitsRun d1 \<and> digitsRun d2 \<and> digitsRun d3 \<and> digitsRun d4 \<and>
      s = headerText d1 d2 d3 d4 @ r"
    by (rule headerFixed_Some)
next
  assume "\<exists>d1 d2 d3 d4. digitsRun d1 \<and> digitsRun d2 \<and> digitsRun d3 \<and> digitsRun d4 \<and>
      s = headerText d1 d2 d3 d4 @ r"
  then obtain d1 d2 d3 d4 where "digitsRun d1" "digitsRun d2" "digitsRun d3" "digitsRun d4"
    and s: "s = headerText d1 d2 d3 d4 @ r" by blast
  then show "headerFixed s = Some r"
    by (simp only: s headerFixed_headerText)
qed

























lemma lineCount_pos: "0 < lineCount s"
  using splitLines_nonempty[of s] by (simp add: lineCount_def)



































section \<open>Properties of the resumable batch run\<close>







lemma batchSize_pos: "0 < batchSize"
  by (simp add: batchSize_def)



lemma run_unlisted:
  assumes "listFiles env = None"
  shows "fileDiffsFor env stored rid pull_number =
    \<lparr>diff = [], cleared = (\<not> shouldResume stored rid pull_number \<and> stored \<noteq> None),
     writes = (case stored of None \<Rightarrow> [] | Some progress \<Rightarrow> [progress]), handled = []\<rparr>"
  using assms by (simp add: fileDiffsFor_def Let_def)






lemma workItems_nonempty: "files \<noteq> [] \<Longrightarrow> workItems env files \<noteq> []"
  by (cases files) (simp_all add: workItems_def)


definition changed :: "string \<Rightarrow> ChangedFile" where
  "changed n = \<lparr>filename = n, patch = None\<rparr>"

definition threeFiles :: "ChangedFile list" where
  "threeFiles = [changed ''a.ts'', changed ''b.ts'', changed ''c.ts'']"

definition listing :: "ChangedFile list \<Rightarrow> Env" where
  "listing files = \<lparr>localTesting = False, listFiles = Some files, throwsOn = (\<lambda>f. False),
     startedAt = ''t0'', finishedAt = ''t1''\<rparr>"

definition interrupted :: "nat \<Rightarrow> ReviewProgress" where
  "interrupted n = \<lparr>prNumber = 7, repository = ''o/r'', processedFiles = [''a.ts''],
     allComments = [], currentBatch = 0, totalFiles = n, timestamp = ''t'', completed = False\<rparr>"


lemma shouldResume_stale:
  "prNumber p \<noteq> pn \<or> repository p \<noteq> rid \<Longrightarrow> \<not> shouldResume (Some p) rid pn"
  by (auto simp: shouldResume_def)

lemma shouldResume_None: "\<not> shouldResume None rid pn"
  by (simp add: shouldResume_def)

lemma start_fresh:
  assumes "\<not> shouldResume (Some p) rid pn"
  shows "startProgress env (Some p) rid pn files = startProgress env None rid pn files"
    and "filesToProcess env (Some p) rid pn files = filesToProcess env None rid pn files"
  using assms by (simp_all add: startProgress_def filesToProcess_def shouldResume_None)

lemma fileDiffsFor_fresh:
  assumes "\<not> shouldResume (Some p) rid pn" "listFiles env = Some files"
  shows "fileDiffsFor env (Some p) rid pn = (fileDiffsFor env None rid pn)\<lparr>cleared := True\<rparr>"
proof -
  note n = shouldResume_None[of rid pn]
  show ?thesis
    unfolding fileDiffsFor_def Let_def start_fresh[OF assms(1)]
    using assms n by (simp split: prod.splits)
qed

text \<open>
  A stored session whose pull-request number or repository is not the run's is not
  resumed, and the run calls \<open>clearProgress\<close>. When the changed files are listed, the
  run returns the diff and makes the writes of a run that found no stored session at
  all, and leaves the store as that run leaves it.
\<close>

lemma stale_session_cleared:
  assumes "prNumber p \<noteq> pull_number \<or> repository p \<noteq> owner @ ''/'' @ repo"
    and "r = getIndividualFileDiffs env (Some p) owner repo pull_number"
    and "fresh = getIndividualFileDiffs env None owner repo pull_number"
  shows "\<not> shouldResume (Some p) (owner @ ''/'' @ repo) pull_number \<and> cleared r \<and>
    (listFiles env \<noteq> None \<longrightarrow>
       diff r = diff fresh \<and> writes r = writes fresh \<and> handled r = handled fresh \<and>
       storeAfter (Some p) r = storeAfter None fresh)"
proof -
  define rid where "rid = owner @ ''/'' @ repo"
  have st: "\<not> shouldResume (Some p) rid pull_number"
    using assms(1) unfolding rid_def by (rule shouldResume_stale)
  have r: "r = fileDiffsFor env (Some p) rid pull_number"
    and f: "fresh = fileDiffsFor env None rid pull_number"
    using assms(2,3) by (simp_all add: getIndividualFileDiffs_def rid_def)
  have c: "cleared r" using st by (simp add: r fileDiffsFor_def Let_def split: option.splits prod.splits)
  have "listFiles env \<noteq> None \<longrightarrow>
       diff r = diff fresh \<and> writes r = writes fresh \<and> handled r = handled fresh \<and>
       storeAfter (Some p) r = storeAfter None fresh"
  proof
    assume "listFiles env \<noteq> None"
    then obtain files where "listFiles env = Some files" by auto
    from fileDiffsFor_fresh[OF st this] have e: "r = fresh\<lparr>cleared := True\<rparr>" by (simp add: r f)
    have "\<not> cleared fresh" by (simp add: f fileDiffsFor_def Let_def split: option.splits prod.splits)
    then show "diff r = diff fresh \<and> writes r = writes fresh \<and> handled r = handled fresh \<and>
       storeAfter (Some p) r = storeAfter None fresh"
      by (simp add: e storeAfter_def)
  qed
  with st c show ?thesis unfolding rid_def by (intro conjI)
qed


lemma stale_session_cleared_example:
  "prNumber (interrupted 3) \<noteq> 8 \<and>
   cleared (getIndividualFileDiffs (listing threeFiles) (Some (interrupted 3)) ''o'' ''r'' 8) \<and>
   writes (getIndividualFileDiffs (listing threeFiles) (Some (interrupted 3)) ''o'' ''r'' 8) =
     writes (getIndividualFileDiffs (listing threeFiles) None ''o'' ''r'' 8) \<and>
   storeAfter (Some (interrupted 3))
     (getIndividualFileDiffs (listing threeFiles) (Some (interrupted 3)) ''o'' ''r'' 8) =
   storeAfter None (getIndividualFileDiffs (listing threeFiles) None ''o'' ''r'' 8)"
proof -
  have h: "prNumber (interrupted 3) \<noteq> 8" by (simp add: interrupted_def)
  then have h': "prNumber (interrupted 3) \<noteq> 8 \<or> repository (interrupted 3) \<noteq> ''o'' @ ''/'' @ ''r''"
    by (rule disjI1)
  have l: "listFiles (listing threeFiles) \<noteq> None" by (simp add: listing_def)
  from stale_session_cleared[OF h' refl refl, of "listing threeFiles"] l h
  show ?thesis by blast
qed

text \<open>
  When the listing call throws, the \<open>catch\<close> block saves whatever session was loaded,
  resumed or not.
\<close>

lemma listing_failure_saves_loaded:
  assumes "listFiles env = None"
  shows "writes (getIndividualFileDiffs env (Some p) owner repo pull_number) = [p] \<and>
    storeAfter (Some p) (getIndividualFileDiffs env (Some p) owner repo pull_number) = Some p"
  using assms by (simp add: getIndividualFileDiffs_def fileDiffsFor_def storeAfter_def Let_def)

definition failedListing :: Env where
  "failedListing = \<lparr>localTesting = False, listFiles = None, throwsOn = (\<lambda>f. False),
     startedAt = ''t0'', finishedAt = ''t1''\<rparr>"

text \<open>
  C5. The run for pull request 8 of \<open>o/r\<close> finds the session of pull request 7 in the
  store, and the call that lists the changed files throws. The session is not resumed
  and \<open>clearProgress\<close> is called, but the variable \<open>progress\<close> still holds the
  object that was loaded, and the \<open>catch\<close> block passes it to \<open>saveProgress\<close>: the
  store ends with the session of pull request 7, where the same run on an empty store
  leaves the store empty.
\<close>

theorem stale_session_saved_again:
  "prNumber (interrupted 3) = 7 \<and>
   \<not> shouldResume (Some (interrupted 3)) (''o'' @ ''/'' @ ''r'') 8 \<and>
   cleared (getIndividualFileDiffs failedListing (Some (interrupted 3)) ''o'' ''r'' 8) \<and>
   writes (getIndividualFileDiffs failedListing (Some (interrupted 3)) ''o'' ''r'' 8) =
     [interrupted 3] \<and>
   storeAfter (Some (interrupted 3))
     (getIndividualFileDiffs failedListing (Some (interrupted 3)) ''o'' ''r'' 8) =
     Some (interrupted 3) \<and>
   storeAfter None (getIndividualFileDiffs failedListing None ''o'' ''r'' 8) = None"
  by (simp add: getIndividualFileDiffs_def fileDiffsFor_def shouldResume_def storeAfter_def
      failedListing_def interrupted_def Let_def)


section \<open>Properties of the submission batcher\<close>

definition batchAt :: "ReviewComment list \<Rightarrow> nat \<Rightarrow> ReviewComment list" where
  "batchAt comments k = take postBatchSize (drop (k * postBatchSize) comments)"

definition batchCount :: "ReviewComment list \<Rightarrow> nat" where
  "batchCount comments = (length comments + postBatchSize - 1) div postBatchSize"

definition roundEvents :: "(nat \<Rightarrow> ReviewComment list \<Rightarrow> SubmitOutcome) \<Rightarrow> ReviewComment list \<Rightarrow> nat \<Rightarrow> Event list" where
  "roundEvents createReview comments k =
     Submitted (batchAt comments k) #
     (case createReview k (batchAt comments k) of
        Accepted \<Rightarrow> if Suc k < batchCount comments then [Waited 3000] else []
      | Rejected message \<Rightarrow> if rateLimited message then [Waited 10000] else [])"

definition roundGain :: "(nat \<Rightarrow> ReviewComment list \<Rightarrow> SubmitOutcome) \<Rightarrow> ReviewComment list \<Rightarrow> nat \<Rightarrow> nat" where
  "roundGain createReview comments k =
     (if createReview k (batchAt comments k) = Accepted then length (batchAt comments k) else 0)"

lemma ceil_index:
  fixes m :: nat
  assumes "0 < m"
  shows "(k * m < n) = (k < (n + m - 1) div m)"
proof -
  have "(k < (n + m - 1) div m) = (Suc k \<le> (n + m - 1) div m)" by auto
  also have "\<dots> = (Suc k * m \<le> n + m - 1)"
    using assms by (simp only: less_eq_div_iff_mult_less_eq)
  also have "\<dots> = (k * m < n)" using assms by auto
  finally show ?thesis by simp
qed

lemma batch_index: "(k * postBatchSize < n) = (k < (n + postBatchSize - 1) div postBatchSize)"
  by (rule ceil_index) (simp add: postBatchSize_def)

lemma postLoop_closed:
  "postLoop cr cs (k * postBatchSize) (count, evs) =
     (count + sum_list (map (roundGain cr cs) [k..<batchCount cs]),
      evs @ concat (map (roundEvents cr cs) [k..<batchCount cs]))"
proof (induction "batchCount cs - k" arbitrary: k count evs)
  case 0
  then have "\<not> k * postBatchSize < length cs"
    by (simp add: batch_index batchCount_def)
  moreover from 0 have e: "[k..<batchCount cs] = []" by simp
  ultimately show ?case unfolding e by (simp add: postLoop.simps)
next
  case (Suc j)
  then have lt: "k < batchCount cs" and j: "j = batchCount cs - Suc k" by simp_all
  then have i: "k * postBatchSize < length cs" by (simp add: batch_index batchCount_def)
  have nx: "(k * postBatchSize + postBatchSize < length cs) = (Suc k < batchCount cs)"
    using batch_index[of "Suc k" "length cs"] by (simp add: batchCount_def add.commute)
  have dv: "k * postBatchSize div postBatchSize = k" by (simp add: postBatchSize_def)
  have up: "[k..<batchCount cs] = k # [Suc k..<batchCount cs]" using lt by (rule upt_conv_Cons)
  note ih = Suc.hyps(1)[OF j]
  have step: "k * postBatchSize + postBatchSize = Suc k * postBatchSize" by simp
  have b: "take postBatchSize (drop (k * postBatchSize) cs) = batchAt cs k"
    by (simp add: batchAt_def)
  show ?case
  proof (cases "cr k (batchAt cs k)")
    case Accepted
    let ?count = "count + length (batchAt cs k)"
    let ?evs = "evs @ Submitted (batchAt cs k) # (if Suc k < batchCount cs then [Waited 3000] else [])"
    have "postLoop cr cs (k * postBatchSize) (count, evs) =
        postLoop cr cs (k * postBatchSize + postBatchSize) (?count, ?evs)"
      using i Accepted by (subst postLoop.simps) (simp only: Let_def dv nx b if_True SubmitOutcome.case)
    also have "\<dots> = postLoop cr cs (Suc k * postBatchSize) (?count, ?evs)"
      by (simp only: step)
    also have "\<dots> = (?count + sum_list (map (roundGain cr cs) [Suc k..<batchCount cs]),
         ?evs @ concat (map (roundEvents cr cs) [Suc k..<batchCount cs]))"
      by (rule ih)
    also have "\<dots> = (count + sum_list (map (roundGain cr cs) [k..<batchCount cs]),
         evs @ concat (map (roundEvents cr cs) [k..<batchCount cs]))"
      using Accepted by (simp add: up roundGain_def roundEvents_def)
    finally show ?thesis .
  next
    case (Rejected m)
    let ?evs = "evs @ Submitted (batchAt cs k) # (if rateLimited m then [Waited 10000] else [])"
    have "postLoop cr cs (k * postBatchSize) (count, evs) =
        postLoop cr cs (k * postBatchSize + postBatchSize) (count, ?evs)"
      using i Rejected by (subst postLoop.simps) (simp only: Let_def dv nx b if_True SubmitOutcome.case)
    also have "\<dots> = postLoop cr cs (Suc k * postBatchSize) (count, ?evs)"
      by (simp only: step)
    also have "\<dots> = (count + sum_list (map (roundGain cr cs) [Suc k..<batchCount cs]),
         ?evs @ concat (map (roundEvents cr cs) [Suc k..<batchCount cs]))"
      by (rule ih)
    also have "\<dots> = (count + sum_list (map (roundGain cr cs) [k..<batchCount cs]),
         evs @ concat (map (roundEvents cr cs) [k..<batchCount cs]))"
      using Rejected by (simp add: up roundGain_def roundEvents_def)
    finally show ?thesis .
  qed
qed

lemma postReviewComments_closed:
  "events (postReviewComments False createReview stored comments) =
     concat (map (roundEvents createReview comments) [0..<batchCount comments]) \<and>
   successCount (postReviewComments False createReview stored comments) =
     Some (sum_list (map (roundGain createReview comments) [0..<batchCount comments])) \<and>
   returned (postReviewComments False createReview stored comments) = True"
proof -
  have "postLoop createReview comments 0 (0, []) =
      (0 + sum_list (map (roundGain createReview comments) [0..<batchCount comments]),
       [] @ concat (map (roundEvents createReview comments) [0..<batchCount comments]))"
    using postLoop_closed[of createReview comments 0 0 "[]"] by simp
  then show ?thesis
    by (simp add: postReviewComments_def)
qed

text \<open>
  C9 (amended). Outside \<open>LOCAL_TESTING\<close>, \<open>postReviewComments\<close> submits every batch
  of five comments once, in order, whatever the outcome of the batches before it: after
  an accepted batch it waits 3000 ms if a batch follows, after a rejected batch whose
  error message mentions a rate limit it waits 10000 ms once, and in both cases it goes on
  with the next batch. The count it logs is the number of comments in the accepted
  batches. The value it returns is \<open>true\<close>.
\<close>

theorem postReviewComments_batches:
  "events (postReviewComments False createReview stored comments) =
     concat (map (\<lambda>k.
        Submitted (batchAt comments k) #
        (case createReview k (batchAt comments k) of
           Accepted \<Rightarrow> if Suc k < batchCount comments then [Waited 3000] else []
         | Rejected message \<Rightarrow> if rateLimited message then [Waited 10000] else []))
       [0..<batchCount comments]) \<and>
   successCount (postReviewComments False createReview stored comments) =
     Some (sum_list (map (\<lambda>k.
        if createReview k (batchAt comments k) = Accepted then length (batchAt comments k) else 0)
       [0..<batchCount comments])) \<and>
   returned (postReviewComments False createReview stored comments) = True"
  using postReviewComments_closed[of createReview stored comments]
  by (simp add: roundGain_def[abs_def] roundEvents_def[abs_def])

definition note1 :: ReviewComment where
  "note1 = \<lparr>body = Some (JString ''x''), path = ''a.ts'', line = Fin 1\<rparr>"

theorem postReviewComments_returns_true_counterexample:
  "returned (postReviewComments False (\<lambda>k b. Accepted) None [note1]) =
   returned (postReviewComments False (\<lambda>k b. Rejected None) None [note1]) \<and>
   successCount (postReviewComments False (\<lambda>k b. Accepted) None [note1]) = Some 1 \<and>
   successCount (postReviewComments False (\<lambda>k b. Rejected None) None [note1]) = Some 0"
  by (simp add: postReviewComments_def postLoop.simps postBatchSize_def rateLimited_def)

lemma submitted_subset:
  assumes "Submitted b \<in> set (events (postReviewComments local createReview stored comments))"
  shows "set b \<subseteq> set comments"
proof (cases local)
  case True
  with assms show ?thesis by (simp add: postReviewComments_def)
next
  case False
  with assms postReviewComments_closed[of createReview stored comments]
  obtain k where "Submitted b \<in> set (roundEvents createReview comments k)"
    by auto
  then have "b = batchAt comments k"
    by (auto simp: roundEvents_def split: SubmitOutcome.splits if_splits)
  then show ?thesis
    using set_take_subset set_drop_subset by (fastforce simp: batchAt_def)
qed

section \<open>Properties of the session record\<close>









section \<open>The validator as a gate\<close>

text \<open>
  C1. A comment that \<open>validateCommentLine\<close> returns, or that
  \<open>createReviewComment\<close> hands to the submission call in some batch, is one of the
  candidates, and the parsed diff has a file whose new path or old path is the comment's
  path, with a change record in one of its chunks that matches the comment's line: an
  addition whose new line is that line, a deletion whose old line is that line, or a
  context record whose old or new line is that line. A candidate without such a record
  is therefore neither returned nor submitted.
\<close>

theorem validateCommentLine_sound:
  assumes "c \<in> set (validateCommentLine comments parsedDiff) \<or>
    (\<exists>r b. createReviewComment local createReview stored comments parsedDiff = Some r \<and>
       Submitted b \<in> set (events r) \<and> c \<in> set b)"
  shows "c \<in> set comments \<and>
    (\<exists>f \<in> set parsedDiff. (file_to f = Some (path c) \<or> file_from f = Some (path c)) \<and>
      (\<exists>ch \<in> set (chunks f). \<exists>x \<in> set (changes ch).
         (\<exists>n t. x = AddChange n t \<and> line c = Fin (of_int n)) \<or>
         (\<exists>n t. x = DeleteChange n t \<and> line c = Fin (of_int n)) \<or>
         (\<exists>n1 n2 t. x = NormalChange n1 n2 t \<and>
            (line c = Fin (of_int n1) \<or> line c = Fin (of_int n2)))))"
proof -
  have "c \<in> set (validateCommentLine comments parsedDiff)"
    using assms
  proof
    assume "c \<in> set (validateCommentLine comments parsedDiff)"
    then show ?thesis .
  next
    assume "\<exists>r b. createReviewComment local createReview stored comments parsedDiff = Some r \<and>
       Submitted b \<in> set (events r) \<and> c \<in> set b"
    then obtain r b where
      r: "createReviewComment local createReview stored comments parsedDiff = Some r" and
      b: "Submitted b \<in> set (events r)" and c: "c \<in> set b"
      by blast
    from r have "r = postReviewComments local createReview stored (validateCommentLine comments parsedDiff)"
      by (simp add: createReviewComment_def Let_def split: if_splits)
    with b have "set b \<subseteq> set (validateCommentLine comments parsedDiff)"
      using submitted_subset by blast
    with c show ?thesis by blast
  qed
  then show ?thesis by (rule validated_has_record)
qed

definition fixtureDiff :: "ParsedFile list" where
  "fixtureDiff =
     [\<lparr>file_from = Some ''src/c.ts'', file_to = Some ''src/c.ts'',
       chunks = [\<lparr>chunk_content = ''@@ -7,2 +7,2 @@'',
                 changes = [NormalChange 7 7 '' keep'', DeleteChange 8 ''-old'',
                            AddChange 9 ''+new'']\<rparr>]\<rparr>]"

definition fixtureComment :: "int \<Rightarrow> ReviewComment" where
  "fixtureComment n = \<lparr>body = Some (JString ''note''), path = ''src/c.ts'', line = Fin (of_int n)\<rparr>"

theorem validateCommentLine_sound_witness:
  "fixtureComment 8 \<in> set (validateCommentLine [fixtureComment 8, fixtureComment 30] fixtureDiff) \<and>
   fixtureComment 8 \<in> set [fixtureComment 8, fixtureComment 30] \<and>
   (\<exists>f \<in> set fixtureDiff. \<exists>ch \<in> set (chunks f). \<exists>x \<in> set (changes ch).
      \<exists>t. x = DeleteChange 8 t)"
proof -
  have h: "fixtureComment 8 \<in> set (validateCommentLine [fixtureComment 8, fixtureComment 30] fixtureDiff)"
    by (simp add: fixtureDiff_def fixtureComment_def pathMatches_def strictEq_def)
  from validateCommentLine_sound[OF disjI1, OF h] h show ?thesis
    by (simp add: fixtureDiff_def fixtureComment_def)
qed


section \<open>Properties of the response parser\<close>

lemma last_dropWhile_nonempty: "dropWhile P xs \<noteq> [] \<Longrightarrow> last (dropWhile P xs) = last xs"
  by (induction xs) auto

lemma strip_fixed:
  assumes "s \<noteq> []" and "\<not> P (hd s)" and "\<not> P (last s)"
  shows "rev (dropWhile P (rev (dropWhile P s))) = s"
proof -
  from assms have "dropWhile P s = s" by (cases s) auto
  moreover from assms have "dropWhile P (rev s) = rev s"
    by (cases "rev s") (auto simp: hd_rev)
  ultimately show ?thesis by simp
qed

lemma strip_ends:
  assumes "rev (dropWhile P (rev (dropWhile P s))) \<noteq> []"
  shows "\<not> P (hd (rev (dropWhile P (rev (dropWhile P s))))) \<and>
         \<not> P (last (rev (dropWhile P (rev (dropWhile P s)))))"
proof -
  let ?d = "dropWhile P s"
  let ?e = "dropWhile P (rev ?d)"
  from assms have e: "?e \<noteq> []" by simp
  have d: "?d \<noteq> []" using e by (cases "dropWhile P s") simp_all
  have 1: "\<not> P (hd ?e)" using e by (rule hd_dropWhile)
  have "last ?e = last (rev ?d)" using e by (rule last_dropWhile_nonempty)
  also have "\<dots> = hd ?d" using d by (simp add: last_rev)
  finally have 2: "\<not> P (last ?e)" using hd_dropWhile[OF d] by simp
  from e 1 2 show ?thesis by (simp add: hd_rev last_rev)
qed

lemma trim_fixed: "s \<noteq> [] \<Longrightarrow> \<not> isJsSpace (hd s) \<Longrightarrow> \<not> isJsSpace (last s) \<Longrightarrow> trim s = s"
  unfolding trim_def by (rule strip_fixed)

lemma trim_ends: "trim s \<noteq> [] \<Longrightarrow> \<not> isJsSpace (hd (trim s)) \<and> \<not> isJsSpace (last (trim s))"
  unfolding trim_def by (rule strip_ends)

lemma trim_Nil: "trim [] = []"
  by (simp add: trim_def)

lemma trim_idem: "trim (trim s) = trim s"
proof (cases "trim s = []")
  case True
  then show ?thesis by (simp add: trim_Nil)
next
  case False
  from trim_ends[OF False] False show ?thesis by (simp add: trim_fixed)
qed

lemma stripTicks_fixed: "s \<noteq> [] \<Longrightarrow> \<not> isTick (hd s) \<Longrightarrow> \<not> isTick (last s) \<Longrightarrow> stripTicks s = s"
  unfolding stripTicks_def by (rule strip_fixed)

lemma splitLines_no_newline: "CHR 0x0A \<notin> set a \<Longrightarrow> splitLines a = [a]"
  by (induction a) auto

lemma splitLines_append_newline: "splitLines (a @ CHR 0x0A # b) = splitLines a @ splitLines b"
proof (induction a)
  case Nil
  show ?case by simp
next
  case (Cons c a)
  obtain l ls where "splitLines a = l # ls"
    using splitLines_nonempty[of a] by (cases "splitLines a") auto
  with Cons show ?case by simp
qed

lemma joinWith_Cons_Cons: "joinWith sep ((c # l) # ls) = c # joinWith sep (l # ls)"
  by (cases ls) simp_all

lemma joinWith_splitLines: "joinWith [CHR 0x0A] (splitLines s) = s"
proof (induction s)
  case Nil
  show ?case by simp
next
  case (Cons c s)
  obtain l ls where ls: "splitLines s = l # ls"
    using splitLines_nonempty[of s] by (cases "splitLines s") auto
  with Cons show ?case by (simp add: joinWith_Cons_Cons)
qed

lemma startsWith_hd: "s \<noteq> [] \<Longrightarrow> hd s \<noteq> c \<Longrightarrow> \<not> startsWith (c # p) s"
  by (cases s) (auto simp: startsWith_def)

lemma cleanResponse_plain:
  assumes "s \<noteq> []" and "\<not> isTick (hd s)" and "\<not> isTick (last s)"
  shows "cleanResponse s = Some (trim s)"
proof -
  from assms(2) have hd: "hd s \<noteq> CHR 0x60" by (simp add: isTick_def)
  have 1: "\<not> startsWith ''```json'' s" using assms(1) hd by (rule startsWith_hd)
  have 2: "\<not> startsWith ''```'' s" using assms(1) hd by (rule startsWith_hd)
  from 1 2 show ?thesis by (simp add: cleanResponse_def stripTicks_fixed[OF assms])
qed

lemma tick_not_space: "isTick c \<Longrightarrow> \<not> isJsSpace c"
  by (simp add: isTick_def isJsSpace_def)

lemma dropWhile_keep: "t \<noteq> [] \<Longrightarrow> \<not> P (hd t) \<Longrightarrow> dropWhile P (s @ t) = dropWhile P s @ t"
  by (induction s) (auto simp: neq_Nil_conv)

lemma strip_right:
  assumes "s \<noteq> []" and "\<not> P (last s)" and "\<forall>c \<in> set x. P c"
  shows "rev (dropWhile P (rev (s @ x))) = s"
proof -
  have "dropWhile P (rev x @ rev s) = dropWhile P (rev s)"
    using assms(3) by (intro dropWhile_append2) simp
  moreover have "dropWhile P (rev s) = rev s"
    using assms(1,2) by (cases "rev s") (auto simp: hd_rev)
  ultimately show ?thesis by simp
qed

lemma trim_decomp:
  "\<exists>a z. s = a @ trim s @ z \<and> (\<forall>c \<in> set a. isJsSpace c) \<and> (\<forall>c \<in> set z. isJsSpace c)"
proof -
  let ?a = "takeWhile isJsSpace s"
  let ?d = "dropWhile isJsSpace s"
  let ?z = "rev (takeWhile isJsSpace (rev ?d))"
  have "rev (rev ?d) = rev (takeWhile isJsSpace (rev ?d) @ dropWhile isJsSpace (rev ?d))"
    by (simp only: takeWhile_dropWhile_id)
  also have "\<dots> = rev (dropWhile isJsSpace (rev ?d)) @ rev (takeWhile isJsSpace (rev ?d))"
    by (rule rev_append)
  finally have d: "?d = trim s @ ?z" by (simp only: rev_rev_ident trim_def)
  have "s = ?a @ ?d" by simp
  with d have 1: "s = ?a @ trim s @ ?z" by simp
  have 2: "\<forall>c \<in> set ?a. isJsSpace c" by (auto dest: set_takeWhileD)
  have 3: "\<forall>c \<in> set ?z. isJsSpace c" by (auto dest: set_takeWhileD)
  from 1 2 3 show ?thesis by blast
qed

lemma trim_pad:
  assumes a: "\<forall>c \<in> set a. isJsSpace c" and b: "\<forall>c \<in> set b. isJsSpace c"
  shows "trim (a @ s @ b) = trim s"
proof -
  have 1: "dropWhile isJsSpace (a @ s @ b) = dropWhile isJsSpace (s @ b)"
    using a by (intro dropWhile_append2) simp
  show ?thesis
  proof (cases "\<forall>c \<in> set s. isJsSpace c")
    case True
    then have x: "dropWhile isJsSpace s = []" by simp
    from True b have y: "dropWhile isJsSpace (s @ b) = []" by auto
    show ?thesis by (simp only: trim_def 1 x y)
  next
    case False
    then obtain x where "x \<in> set s" "\<not> isJsSpace x" by blast
    then have 2: "dropWhile isJsSpace (s @ b) = dropWhile isJsSpace s @ b"
      by (rule dropWhile_append1)
    have "dropWhile isJsSpace (rev b @ rev (dropWhile isJsSpace s)) =
        dropWhile isJsSpace (rev (dropWhile isJsSpace s))"
      using b by (intro dropWhile_append2) simp
    then show ?thesis by (simp add: trim_def 1 2)
  qed
qed

lemma trim_pad_right: "\<forall>c \<in> set b. isJsSpace c \<Longrightarrow> trim (s @ b) = trim s"
  using trim_pad[of "[]" b s] by simp

lemma joinWith_snoc: "xs \<noteq> [] \<Longrightarrow> joinWith sep (xs @ [x]) = joinWith sep xs @ sep @ x"
  by (induction sep xs rule: joinWith.induct) simp_all

lemma last_splitLines: "CHR 0x0A \<notin> set (last (splitLines s))"
proof (induction s)
  case Nil
  show ?case by simp
next
  case (Cons c s)
  obtain l ls where ls: "splitLines s = l # ls"
    using splitLines_nonempty[of s] by (cases "splitLines s") auto
  with Cons show ?case by (cases ls) auto
qed

lemma splitLines_cases:
  obtains (one) "butlast (splitLines s) = []" "s = last (splitLines s)"
  | (more) "butlast (splitLines s) \<noteq> []"
      "s = joinWith ''\<newline>'' (butlast (splitLines s)) @ CHR 0x0A # last (splitLines s)"
proof (cases "butlast (splitLines s) = []")
  case True
  have "splitLines s = butlast (splitLines s) @ [last (splitLines s)]"
    using splitLines_nonempty[of s] by simp
  with True have "splitLines s = [last (splitLines s)]" by simp
  then have "joinWith ''\<newline>'' (splitLines s) = last (splitLines s)"
    by (metis joinWith.simps(2))
  then have "s = last (splitLines s)" by (simp add: joinWith_splitLines)
  with True show ?thesis by (rule one)
next
  case False
  have "splitLines s = butlast (splitLines s) @ [last (splitLines s)]"
    using splitLines_nonempty[of s] by simp
  then have "joinWith ''\<newline>'' (splitLines s) =
      joinWith ''\<newline>'' (butlast (splitLines s) @ [last (splitLines s)])" by simp
  also have "\<dots> = joinWith ''\<newline>'' (butlast (splitLines s)) @ ''\<newline>'' @ last (splitLines s)"
    using False by (rule joinWith_snoc)
  finally have "s = joinWith ''\<newline>'' (butlast (splitLines s)) @ CHR 0x0A # last (splitLines s)"
    by (simp add: joinWith_splitLines)
  with False show ?thesis by (rule more)
qed

lemma append_eq_split:
  assumes "x @ y = z @ l"
  shows "(\<exists>us. x = z @ us \<and> us @ y = l) \<or> (\<exists>us. x @ us = z \<and> y = us @ l)"
proof -
  from assms have "\<exists>us. x = z @ us \<and> us @ y = l \<or> x @ us = z \<and> y = us @ l"
    by (rule iffD1[OF append_eq_append_conv2])
  then show ?thesis by blast
qed

lemma stripFence_open:
  assumes "CHR 0x0A \<notin> set opening"
  shows "stripFence (opening @ CHR 0x0A # r) =
     Some (trim (joinWith ''\<newline>''
       (if trim (last (splitLines r)) = ''```'' then butlast (splitLines r) else splitLines r)))"
proof -
  have "splitLines (opening @ CHR 0x0A # r) = opening # splitLines r"
    using assms by (simp add: splitLines_append_newline splitLines_no_newline)
  then have t: "tl (splitLines (opening @ CHR 0x0A # r)) = splitLines r" by simp
  obtain l ls where ls: "splitLines r = l # ls"
    using splitLines_nonempty[of r] by (cases "splitLines r") auto
  show ?thesis unfolding stripFence_def t by (simp add: ls)
qed

lemma ticks_eval: "\<forall>c \<in> set ''```''. isTick c" "\<not> isJsSpace (last ''```'')" "\<not> isJsSpace (hd ''```'')"
  by (simp_all add: isTick_def isJsSpace_def)

lemma trim_core:
  assumes "t \<noteq> []" and "\<not> isJsSpace (hd t)"
    and a: "\<forall>c \<in> set a. isJsSpace c"
  shows "trim (a @ t @ w @ ''```'') = t @ w @ ''```''"
proof -
  have "trim (a @ (t @ w @ ''```'') @ []) = trim (t @ w @ ''```'')"
    using a by (intro trim_pad) simp_all
  moreover have "trim (t @ w @ ''```'') = t @ w @ ''```''"
    using assms(1,2) by (intro trim_fixed) (simp_all add: isJsSpace_def)
  ultimately show ?thesis by simp
qed

lemma stripTicks_core:
  assumes "t \<noteq> []" and "\<not> isTick (hd t)" and "\<not> isTick (last t)"
    and w: "\<forall>c \<in> set w. isJsSpace c"
  shows "stripTicks (t @ w @ ''```'') = t @ w"
proof -
  have 1: "dropWhile isTick (t @ w @ ''```'') = t @ w @ ''```''"
    using assms(1,2) by (cases t) auto
  have l: "\<not> isTick (last (t @ w))"
  proof (cases "w = []")
    case True
    with assms(3) show ?thesis by simp
  next
    case False
    then have "last w \<in> set w" by simp
    with w have "isJsSpace (last w)" by blast
    with False show ?thesis using tick_not_space by auto
  qed
  have "rev (dropWhile isTick (rev ((t @ w) @ ''```''))) = t @ w"
    using _ l ticks_eval(1) by (rule strip_right) (simp add: assms(1))
  then show ?thesis by (simp add: stripTicks_def 1)
qed

lemma fence_tail:
  assumes e: "x @ ''```'' = (j @ [CHR 0x0A]) @ l"
  shows "\<exists>us. x = (j @ [CHR 0x0A]) @ us \<and> us @ ''```'' = l"
proof -
  from e have "(\<exists>us. x = (j @ [CHR 0x0A]) @ us \<and> us @ ''```'' = l) \<or>
      (\<exists>us. x @ us = j @ [CHR 0x0A] \<and> ''```'' = us @ l)"
    by (rule append_eq_split)
  then show ?thesis
  proof
    assume "\<exists>us. x = (j @ [CHR 0x0A]) @ us \<and> us @ ''```'' = l"
    then show ?thesis .
  next
    assume "\<exists>us. x @ us = j @ [CHR 0x0A] \<and> ''```'' = us @ l"
    then obtain us where uv: "x @ us = j @ [CHR 0x0A] \<and> ''```'' = us @ l" ..
    note u = conjunct1[OF uv] and v = conjunct2[OF uv]
    have e: "us = []"
    proof (rule ccontr)
      assume ne: "us \<noteq> []"
      have "last us = last (x @ us)" using ne by simp
      also have "\<dots> = last (j @ [CHR 0x0A])" by (simp only: u)
      also have "\<dots> = CHR 0x0A" by simp
      finally have l: "last us = CHR 0x0A" .
      have "set us \<subseteq> set (us @ l)" by simp
      then have "set us \<subseteq> set ''```''" by (simp only: v[symmetric])
      moreover have "last us \<in> set us" using ne by (rule last_in_set)
      ultimately have "last us \<in> set ''```''" by (rule subsetD)
      then have "last us = CHR 0x60" by simp
      with l show False by simp
    qed
    from u have 1: "x = (j @ [CHR 0x0A]) @ []" by (simp add: e)
    from v have 2: "[] @ ''```'' = l" by (simp add: e)
    from 1 2 have "x = (j @ [CHR 0x0A]) @ [] \<and> [] @ ''```'' = l" by (rule conjI)
    then show ?thesis
      by (rule exI[of "\<lambda>us. x = (j @ [CHR 0x0A]) @ us \<and> us @ ''```'' = l" "[]"])
  qed
qed

lemma trim_ticks_only:
  assumes "trim (us @ ''```'') = ''```''"
  shows "\<forall>c \<in> set us. isJsSpace c"
proof -
  have d: "dropWhile isJsSpace (us @ ''```'') = dropWhile isJsSpace us @ ''```''"
    by (rule dropWhile_keep) (simp_all add: isJsSpace_def)
  have "rev (dropWhile isJsSpace (rev ((dropWhile isJsSpace us @ ''```'') @ []))) =
      dropWhile isJsSpace us @ ''```''"
    by (rule strip_right) (simp_all add: isJsSpace_def)
  then have "trim (us @ ''```'') = dropWhile isJsSpace us @ ''```''"
    by (simp add: trim_def d)
  with assms have "dropWhile isJsSpace us = []" by simp
  then show ?thesis by (simp add: dropWhile_eq_Nil_conv)
qed

lemma popped_line:
  assumes t: "t \<noteq> []" "\<not> isJsSpace (hd t)" "\<not> isJsSpace (last t)"
    and a: "\<forall>c \<in> set a. isJsSpace c" and w: "\<forall>c \<in> set w. isJsSpace c"
    and e: "a @ t @ w @ ''```'' = j @ CHR 0x0A # l"
    and l: "trim l = ''```''"
  shows "trim j = t"
proof -
  from e have "(a @ t @ w) @ ''```'' = (j @ [CHR 0x0A]) @ l" by simp
  then have "\<exists>us. a @ t @ w = (j @ [CHR 0x0A]) @ us \<and> us @ ''```'' = l" by (rule fence_tail)
  then obtain us where u1: "a @ t @ w = (j @ [CHR 0x0A]) @ us" and u2: "us @ ''```'' = l"
    by blast
  from l have "trim (us @ ''```'') = ''```''" by (simp only: u2)
  then have us: "\<forall>c \<in> set us. isJsSpace c" by (rule trim_ticks_only)
  have sp: "\<forall>c \<in> set (CHR 0x0A # us). isJsSpace c"
  proof
    fix c assume "c \<in> set (CHR 0x0A # us)"
    then have "c = CHR 0x0A \<or> c \<in> set us" by simp
    then show "isJsSpace c"
    proof
      assume "c = CHR 0x0A"
      then show ?thesis by (simp add: isJsSpace_def)
    next
      assume "c \<in> set us"
      with us show ?thesis ..
    qed
  qed
  have "trim (j @ CHR 0x0A # us) = trim j" using sp by (rule trim_pad_right)
  moreover have "j @ CHR 0x0A # us = a @ t @ w" using u1 by simp
  moreover have "trim (a @ t @ w) = trim t" using a w by (rule trim_pad)
  moreover have "trim t = t" using t by (rule trim_fixed)
  ultimately show ?thesis by simp
qed

lemma fenced_body:
  assumes t: "t \<noteq> []" "\<not> isJsSpace (hd t)" "\<not> isJsSpace (last t)"
      "\<not> isTick (hd t)" "\<not> isTick (last t)"
    and a: "\<forall>c \<in> set a. isJsSpace c" and w: "\<forall>c \<in> set w. isJsSpace c"
    and r: "r = a @ t @ w @ ''```''"
  shows "trim (stripTicks (trim (joinWith ''\<newline>''
      (if trim (last (splitLines r)) = ''```'' then butlast (splitLines r) else splitLines r)))) = t"
proof -
  have tr: "trim r = t @ w @ ''```''" unfolding r using t(1,2) a by (rule trim_core)
  have tt: "trim t = t" using t(1,2,3) by (rule trim_fixed)
  have st: "stripTicks t = t" using t(1,4,5) by (rule stripTicks_fixed)
  show ?thesis
  proof (cases "trim (last (splitLines r)) = ''```''")
    case False
    have "trim (stripTicks (trim (joinWith ''\<newline>'' (splitLines r)))) =
        trim (stripTicks (t @ w @ ''```''))"
      by (simp only: joinWith_splitLines tr)
    also have "\<dots> = trim (t @ w)" by (simp only: stripTicks_core[OF t(1,4,5) w])
    also have "\<dots> = t" using trim_pad_right[OF w, of t] tt by simp
    finally show ?thesis using False by simp
  next
    case True
    let ?ll = "last (splitLines r)"
    let ?j = "joinWith ''\<newline>'' (butlast (splitLines r))"
    have "trim ?j = t"
    proof (cases r rule: splitLines_cases)
      case one
      from one(2) have "trim r = trim ?ll" by (rule arg_cong)
      then have "trim r = ''```''" using True by (rule trans)
      with tr have "t @ w @ ''```'' = ''```''" by simp
      with t(1) show ?thesis by (simp add: append_eq_Cons_conv)
    next
      case more
      have "a @ t @ w @ ''```'' = r" by (simp only: r)
      also note more(2)
      finally have "a @ t @ w @ ''```'' = ?j @ CHR 0x0A # ?ll" .
      with t(1,2,3) a w show ?thesis using True by (rule popped_line)
    qed
    then have "trim (stripTicks (trim ?j)) = t" by (simp only: st tt)
    with True show ?thesis by simp
  qed
qed

lemma cleanResponse_fence:
  assumes tag: "CHR 0x0A \<notin> set tag" and gap: "\<forall>c \<in> set gap. isJsSpace c"
    and c: "trim content \<noteq> []" "\<not> isTick (hd (trim content))" "\<not> isTick (last (trim content))"
  shows "cleanResponse (''```'' @ tag @ CHR 0x0A # content @ gap @ ''```'') = Some (trim content)"
proof -
  let ?r = "content @ gap @ ''```''"
  let ?f = "(''```'' @ tag) @ CHR 0x0A # ?r"
  from trim_decomp[of content] obtain a z where
    d: "content = a @ trim content @ z" and a: "\<forall>c \<in> set a. isJsSpace c"
    and z: "\<forall>c \<in> set z. isJsSpace c" by blast
  have w: "\<forall>c \<in> set (z @ gap). isJsSpace c" using z gap by auto
  have "?r = (a @ trim content @ z) @ gap @ ''```''" using d by simp
  then have r: "?r = a @ trim content @ (z @ gap) @ ''```''" by simp
  note e = trim_ends[OF c(1)]
  have b: "trim (stripTicks (trim (joinWith ''\<newline>''
      (if trim (last (splitLines ?r)) = ''```'' then butlast (splitLines ?r) else splitLines ?r)))) =
      trim content"
    using c(1) conjunct1[OF e] conjunct2[OF e] c(2,3) a w r by (rule fenced_body)
  have o: "CHR 0x0A \<notin> set (''```'' @ tag)" using tag by simp
  have sw: "startsWith ''```'' ?f" by (simp add: startsWith_def)
  have "cleanResponse ?f = map_option (\<lambda>r. trim (stripTicks r)) (stripFence ?f)"
    unfolding cleanResponse_def using sw by (simp only: if_True if_cancel)
  also have "\<dots> = Some (trim content)"
    by (simp only: stripFence_open[OF o] option.map b)
  finally show ?thesis by simp
qed

lemmas parser_eval = cleanResponse_def replyText_def trim_def stripTicks_def startsWith_def
  isJsSpace_def isTick_def


text \<open>
  C7. Take a reply text \<open>content\<close> that is not blank and whose trimmed text neither
  starts nor ends with a backtick, which holds of every JSON text, and wrap it in a fence
  whose opening line ends with a line feed: white space, three backticks and a tag
  without a line feed (\<open>json\<close>, or nothing), a line feed, the content, white space
  (none, or the line feed that puts the closing fence on its own line), three backticks
  and white space. Whatever \<open>JSON.parse\<close> does, the parser returns for the fenced
  reply what it returns for \<open>content\<close> alone. So when the trimmed content decodes to
  an object whose \<open>reviews\<close> is the empty array, the fenced reply yields the empty
  array and not \<open>null\<close>.
\<close>

theorem fenced_reply_parses_alike:
  assumes "CHR 0x0A \<notin> set tag"
    and "\<forall>c \<in> set lead. isJsSpace c" and "\<forall>c \<in> set gap. isJsSpace c"
    and "\<forall>c \<in> set trail. isJsSpace c"
    and "trim content \<noteq> []"
    and "\<not> isTick (hd (trim content))"
    and "\<not> isTick (last (trim content))"
  shows "parseReply parse
           (Content (Some (lead @ ''```'' @ tag @ ''\<newline>'' @ content @ gap @ ''```'' @ trail))) =
         parseReply parse (Content (Some content))
       \<and> (parse (trim content) = Some (JObject [(''reviews'', JArray [])]) \<longrightarrow>
           parseReply parse
             (Content (Some (lead @ ''```'' @ tag @ ''\<newline>'' @ content @ gap @ ''```'' @ trail))) =
           JArray [])"
proof -
  let ?f = "''```'' @ tag @ CHR 0x0A # content @ gap @ ''```''"
  have fe: "?f \<noteq> []" by simp
  have "trim (lead @ ?f @ trail) = trim ?f" using assms(2,4) by (rule trim_pad)
  also have "\<dots> = ?f" by (rule trim_fixed) (simp_all add: isJsSpace_def)
  finally have tf: "trim (lead @ ?f @ trail) = ?f" .
  have f: "parseReply parse (Content (Some (lead @ ?f @ trail))) = decodeReviews parse (trim content)"
    unfolding parseReply_def replyText_def Let_def
    by (simp only: Reply.case option.case tf fe if_False cleanResponse_fence[OF assms(1,3,5,6,7)])
  have ce: "cleanResponse (trim content) = Some (trim content)"
    using cleanResponse_plain[OF assms(5,6,7)] by (simp only: trim_idem)
  have u: "parseReply parse (Content (Some content)) = decodeReviews parse (trim content)"
    unfolding parseReply_def replyText_def Let_def
    by (simp only: Reply.case option.case assms(5) if_False ce)
  have e: "parse (trim content) = Some (JObject [(''reviews'', JArray [])]) \<Longrightarrow>
      decodeReviews parse (trim content) = JArray []"
    by (simp add: decodeReviews_def)
  have eq: "lead @ ''```'' @ tag @ ''\<newline>'' @ content @ gap @ ''```'' @ trail = lead @ ?f @ trail"
    by simp
  show ?thesis unfolding eq f u using e by simp
qed

definition emptyReviews :: string where
  "emptyReviews = ''{\"reviews\":[]}''"

definition parseEmpty :: "string \<Rightarrow> json option" where
  "parseEmpty s = (if s = emptyReviews then Some (JObject [(''reviews'', JArray [])]) else None)"

theorem fenced_reply_parses_alike_witness:
  "parseReply parseEmpty (Content (Some ''```json\<newline>{\"reviews\":[]}\<newline>```'')) = JArray []
   \<and> parseReply parseEmpty (Content (Some '' ```\<newline>{\"reviews\":[]}```\<newline>'')) = JArray []
   \<and> parseReply parseEmpty (Content (Some ''{\"reviews\":[]}'')) = JArray []"
proof -
  have t: "trim emptyReviews = emptyReviews"
    by (simp add: trim_def emptyReviews_def isJsSpace_def)
  have a: "CHR 0x0A \<notin> set ''json''" "CHR 0x0A \<notin> set []" by simp_all
  have s: "\<forall>c \<in> set []. isJsSpace c" "\<forall>c \<in> set ''\<newline>''. isJsSpace c" "\<forall>c \<in> set '' ''. isJsSpace c"
    by (simp_all add: isJsSpace_def)
  have b: "trim emptyReviews \<noteq> []" unfolding t by (simp add: emptyReviews_def)
  have c: "\<not> isTick (hd (trim emptyReviews))" unfolding t by (simp add: emptyReviews_def isTick_def)
  have d: "\<not> isTick (last (trim emptyReviews))" unfolding t by (simp add: emptyReviews_def isTick_def)
  have p: "parseEmpty (trim emptyReviews) = Some (JObject [(''reviews'', JArray [])])"
    unfolding t by (simp add: parseEmpty_def)
  note th1 = fenced_reply_parses_alike[OF a(1) s(1) s(2) s(1) b c d, of parseEmpty]
  note th2 = fenced_reply_parses_alike[OF a(2) s(3) s(1) s(2) b c d, of parseEmpty]
  have 1: "parseReply parseEmpty
      (Content (Some ([] @ ''```'' @ ''json'' @ ''\<newline>'' @ emptyReviews @ ''\<newline>'' @ ''```'' @ []))) =
      JArray []"
    using conjunct2[OF th1] p by (rule mp)
  have 2: "parseReply parseEmpty
      (Content (Some ('' '' @ ''```'' @ [] @ ''\<newline>'' @ emptyReviews @ [] @ ''```'' @ ''\<newline>''))) =
      JArray []"
    using conjunct2[OF th2] p by (rule mp)
  have "parseReply parseEmpty
      (Content (Some ([] @ ''```'' @ ''json'' @ ''\<newline>'' @ emptyReviews @ ''\<newline>'' @ ''```'' @ []))) =
      parseReply parseEmpty (Content (Some emptyReviews))"
    using th1 by (rule conjunct1)
  with 1 have 3: "parseReply parseEmpty (Content (Some emptyReviews)) = JArray []" by simp
  from 1 2 3 show ?thesis by (simp add: emptyReviews_def)
qed

text \<open>
  A fence on one line, with the content directly after the opening backticks: the reply
  is a single line, \<open>shift\<close> leaves no line, reading the last line throws, and the
  parser returns \<open>null\<close> where the content alone gives the empty array.
\<close>

theorem one_line_fence_counterexample:
  "cleanResponse ''```{\"reviews\":[]}```'' = None
   \<and> parseReply parseEmpty (Content (Some ''```{\"reviews\":[]}```'')) = JNull
   \<and> parseReply parseEmpty (Content (Some ''{\"reviews\":[]}'')) = JArray []"
  by (simp add: parseReply_def decodeReviews_def parseEmpty_def emptyReviews_def stripFence_def
      parser_eval)


text \<open>
  C8. Let the completion call for a chunk return a reply whose text, after the fence
  and the backticks are removed, is \<open>cleaned\<close>. If \<open>JSON.parse\<close> throws on
  \<open>cleaned\<close>, \<open>getAIResponse\<close> returns \<open>null\<close>, and \<open>analyzeCode\<close> goes on with
  the next chunk of the file with the comments it had: nothing is added for this chunk
  and nothing is thrown. If \<open>JSON.parse\<close> returns a value that has no \<open>reviews\<close>
  property, \<open>getAIResponse\<close> returns that value.
\<close>

theorem decode_failure_is_no_comments:
  assumes "complete svc (createPrompt file chunk prDetails) = Content c"
    and "cleanResponse (replyText c) = Some cleaned"
  shows "(parseJson svc cleaned = None \<longrightarrow>
            getAIResponse svc (createPrompt file chunk prDetails) = JNull \<and>
            analyzeChunks svc prDetails file (chunk # rest) (calls, comments) =
              analyzeChunks svc prDetails file rest
                (calls @ [createPrompt file chunk prDetails], comments))
       \<and> (\<forall>parsed. parseJson svc cleaned = Some parsed \<and> getProp ''reviews'' parsed = None \<longrightarrow>
            getAIResponse svc (createPrompt file chunk prDetails) = parsed)"
proof -
  have g: "getAIResponse svc (createPrompt file chunk prDetails) =
      decodeReviews (parseJson svc) cleaned"
    by (simp add: getAIResponse_def parseReply_def assms)
  have 1: "getAIResponse svc (createPrompt file chunk prDetails) = JNull"
    if "parseJson svc cleaned = None"
    unfolding g decodeReviews_def using that by simp
  have 2: "analyzeChunks svc prDetails file (chunk # rest) (calls, comments) =
      analyzeChunks svc prDetails file rest (calls @ [createPrompt file chunk prDetails], comments)"
    if "parseJson svc cleaned = None"
    using 1[OF that] by (simp add: Let_def)
  have 3: "getAIResponse svc (createPrompt file chunk prDetails) = parsed"
    if "parseJson svc cleaned = Some parsed" and "getProp ''reviews'' parsed = None" for parsed
    unfolding g decodeReviews_def using that by simp
  from 1 2 3 show ?thesis by (intro conjI impI allI) (simp_all only:)
qed


definition sampleChunk :: Chunk where
  "sampleChunk = \<lparr>chunk_content = ''@@ -1,2 +1,2 @@'', changes = [AddChange 2 ''+x'']\<rparr>"

definition sampleFile :: ParsedFile where
  "sampleFile = \<lparr>file_from = Some ''a.ts'', file_to = Some ''a.ts'', chunks = [sampleChunk]\<rparr>"

definition deletedFile :: ParsedFile where
  "deletedFile = \<lparr>file_from = Some ''old.ts'', file_to = Some ''/dev/null'', chunks = [sampleChunk]\<rparr>"

definition samplePR :: PRDetails where
  "samplePR = \<lparr>pr_owner = ''o'', pr_repo = ''r'', pr_number = 1, title = ''t'', description = ''d''\<rparr>"

definition garbled :: Services where
  "garbled = \<lparr>complete = (\<lambda>p. Content (Some ''Looks fine'')), parseJson = (\<lambda>s. None),
     toNumber = (\<lambda>v. NaN)\<rparr>"

definition bare :: Services where
  "bare = \<lparr>complete = (\<lambda>p. Content (Some ''[]'')),
     parseJson = (\<lambda>s. if s = ''[]'' then Some (JArray []) else None),
     toNumber = (\<lambda>v. NaN)\<rparr>"

theorem decode_failure_is_no_comments_witness:
  "analyzeChunks garbled samplePR sampleFile [sampleChunk] ([], []) =
     ([createPrompt sampleFile sampleChunk samplePR], Inr [])
   \<and> getAIResponse bare (createPrompt sampleFile sampleChunk samplePR) = JArray []"
proof -
  let ?p = "createPrompt sampleFile sampleChunk samplePR"
  have a1: "complete garbled ?p = Content (Some ''Looks fine'')" by (simp add: garbled_def)
  have a2: "cleanResponse (replyText (Some ''Looks fine'')) = Some ''Looks fine''"
    by (simp add: parser_eval)
  have a3: "parseJson garbled ''Looks fine'' = None" by (simp add: garbled_def)
  note g = decode_failure_is_no_comments[OF a1 a2, where rest = "[]" and calls = "[]" and comments = "[]"]
  have "analyzeChunks garbled samplePR sampleFile [sampleChunk] ([], []) =
      analyzeChunks garbled samplePR sampleFile [] ([] @ [?p], [])"
    using conjunct1[OF g, THEN mp, OF a3] by (rule conjunct2)
  also have "\<dots> = ([?p], Inr [])" by simp
  finally have 1: "analyzeChunks garbled samplePR sampleFile [sampleChunk] ([], []) = ([?p], Inr [])" .
  have b1: "complete bare ?p = Content (Some ''[]'')" by (simp add: bare_def)
  have b2: "cleanResponse (replyText (Some ''[]'')) = Some ''[]''" by (simp add: parser_eval)
  have b3: "parseJson bare ''[]'' = Some (JArray []) \<and> getProp ''reviews'' (JArray []) = None"
    by (simp add: bare_def)
  note b = decode_failure_is_no_comments[OF b1 b2, where rest = "[]" and calls = "[]" and comments = "[]"]
  have 2: "getAIResponse bare ?p = JArray []"
    using conjunct2[OF b, THEN spec, of "JArray []"] b3 by (rule mp)
  from 1 2 show ?thesis by (rule conjI)
qed


section \<open>Properties of analyzeCode\<close>

lemma analyzeFiles_append:
  "analyzeFiles svc pr (xs @ ys) st =
     (case analyzeFiles svc pr xs st of
        (calls, Inl e) \<Rightarrow> (calls, Inl e)
      | (calls, Inr cs) \<Rightarrow> analyzeFiles svc pr ys (calls, cs))"
proof (induction xs arbitrary: st)
  case Nil
  show ?case by (cases st) simp
next
  case (Cons x xs)
  obtain calls cs where st: "st = (calls, cs)" by (cases st)
  show ?case
  proof (cases "file_to x = Some ''/dev/null''")
    case True
    then show ?thesis unfolding st using Cons[of "(calls, cs)"] by simp
  next
    case False
    obtain calls' r where a: "analyzeChunks svc pr x (chunks x) (calls, cs) = (calls', r)"
      by (cases "analyzeChunks svc pr x (chunks x) (calls, cs)")
    show ?thesis
    proof (cases r)
      case (Inl e)
      with False a show ?thesis unfolding st by simp
    next
      case (Inr cs')
      with False a show ?thesis unfolding st using Cons[of "(calls', cs')"] by simp
    qed
  qed
qed


text \<open>
  C10. A file of the parsed diff whose new path is \<open>/dev/null\<close> can be removed from
  the diff without changing what \<open>analyzeCode\<close> does: the prompts sent to the
  completion endpoint are the same, in the same order, and so is the outcome, the
  returned comments or the exception. No prompt is sent for the file and no comment
  comes from it.
\<close>

theorem deleted_file_skipped:
  assumes "file_to file = Some ''/dev/null''"
  shows "analyzeCode svc (before @ file # after) prDetails =
         analyzeCode svc (before @ after) prDetails"
proof -
  have "analyzeFiles svc prDetails (file # after) st = analyzeFiles svc prDetails after st" for st
    using assms by (cases st) simp
  then show ?thesis
    unfolding analyzeCode_def by (simp only: analyzeFiles_append[of _ _ before])
qed

definition flagging :: Services where
  "flagging = \<lparr>complete = (\<lambda>p. Content (Some ''x'')),
     parseJson = (\<lambda>s. Some (JObject [(''reviews'',
       JArray [JObject [(''lineNumber'', JNumber (Fin 2)), (''reviewComment'', JString ''rename'')]])])),
     toNumber = (\<lambda>v. Fin 2)\<rparr>"

theorem deleted_file_skipped_witness:
  "analyzeCode flagging [deletedFile, sampleFile] samplePR =
     ([createPrompt sampleFile sampleChunk samplePR],
      Inr [\<lparr>body = Some (JString ''rename''), path = ''a.ts'', line = Fin 2\<rparr>])"
proof -
  have d: "file_to deletedFile = Some ''/dev/null''" by (simp add: deletedFile_def)
  have "analyzeCode flagging ([] @ deletedFile # [sampleFile]) samplePR =
      analyzeCode flagging ([] @ [sampleFile]) samplePR"
    using d by (rule deleted_file_skipped)
  then have 1: "analyzeCode flagging [deletedFile, sampleFile] samplePR =
      analyzeCode flagging [sampleFile] samplePR" by simp
  have t: "file_to sampleFile = Some ''a.ts''" and c: "chunks sampleFile = [sampleChunk]"
    by (simp_all add: sampleFile_def)
  have g: "getAIResponse flagging p =
      JArray [JObject [(''lineNumber'', JNumber (Fin 2)), (''reviewComment'', JString ''rename'')]]" for p
    by (simp add: getAIResponse_def parseReply_def decodeReviews_def flagging_def parser_eval)
  have n: "toNumber flagging = (\<lambda>v. Fin 2)" by (simp add: flagging_def)
  have "analyzeCode flagging [sampleFile] samplePR =
     ([createPrompt sampleFile sampleChunk samplePR],
      Inr [\<lparr>body = Some (JString ''rename''), path = ''a.ts'', line = Fin 2\<rparr>])"
    by (simp add: analyzeCode_def t c g n createComment_def Let_def)
  with 1 show ?thesis by simp
qed


end
